theory Spec2Isabelle
  imports Main
begin

section \<open>Cheapest flights within k stops: the embedding of cheapest\_flights.cpp\<close>

text \<open>
  The C++ type \<open>int\<close> is 32 bits wide. Values are modelled as \<open>int\<close>; every
  addition the source performs is checked against the range of the type, and a sum that
  leaves it is the error \<open>SignedOverflow\<close> (signed overflow is undefined behaviour in
  C++, so nothing is said about a run after it). An index outside a vector is the error
  \<open>OutOfBounds\<close>; a vector constructed with a negative size is \<open>LengthError\<close>.
  Storage is not modelled: a vector of any size that is not negative is allocated.
\<close>

definition INT_MAX :: int where
  "INT_MAX = 2147483647"

definition INT_MIN :: int where
  "INT_MIN = - 2147483648"

definition in_int :: "int \<Rightarrow> bool" where
  "in_int x = (INT_MIN \<le> x \<and> x \<le> INT_MAX)"

datatype error = OutOfBounds | SignedOverflow | LengthError

text \<open>\<open>struct Edge { int to; int cost; }\<close>\<close>

record Edge =
  to :: int
  cost :: int

text \<open>\<open>using FlightTuple = std::tuple<int, int, int>\<close>: cost, city, stops.\<close>

type_synonym FlightTuple = "int \<times> int \<times> int"

text \<open>\<open>operator[]\<close> of \<open>std::vector\<close> with an \<open>int\<close> index.\<close>

definition at :: "'a list \<Rightarrow> int \<Rightarrow> error + 'a" where
  "at xs i = (if 0 \<le> i \<and> i < int (length xs) then Inr (xs ! nat i) else Inl OutOfBounds)"

text \<open>Lines 37 to 40: the adjacency list, one \<open>push_back\<close> for each flight.\<close>

fun build_adj :: "int list list \<Rightarrow> Edge list list \<Rightarrow> error + Edge list list" where
  "build_adj [] adj = Inr adj"
| "build_adj (flight # flights) adj =
     (if length flight < 3 then Inl OutOfBounds
      else if \<not> (0 \<le> flight ! 0 \<and> flight ! 0 < int (length adj)) then Inl OutOfBounds
      else build_adj flights
             (adj[nat (flight ! 0) :=
                    adj ! nat (flight ! 0) @ [\<lparr>to = flight ! 1, cost = flight ! 2\<rparr>]]))"

text \<open>
  The priority queue. \<open>CompareFlight\<close> orders entries by cost alone, so \<open>top\<close> is an
  entry of least cost; which one among several of the same cost is left to the heap. The
  model keeps the entries in a list and takes that choice as the parameter \<open>tie\<close>: the
  entry returned is the one at position \<open>tie pq\<close> (modulo their number) among the
  entries of least cost. Every theorem below holds for every \<open>tie\<close>.
\<close>

definition pq_push :: "FlightTuple \<Rightarrow> FlightTuple list \<Rightarrow> FlightTuple list" where
  "pq_push e pq = pq @ [e]"

definition pq_top :: "(FlightTuple list \<Rightarrow> nat) \<Rightarrow> FlightTuple list \<Rightarrow> FlightTuple" where
  "pq_top tie pq =
     (let ms = filter (\<lambda>e. fst e = Min (set (map fst pq))) pq
      in ms ! (tie pq mod length ms))"

definition pq_pop :: "(FlightTuple list \<Rightarrow> nat) \<Rightarrow> FlightTuple list \<Rightarrow> FlightTuple list" where
  "pq_pop tie pq = remove1 (pq_top tie pq) pq"

text \<open>The state of the search loop: the queue and the table \<open>dist[city][stops]\<close>.\<close>

type_synonym state = "FlightTuple list \<times> int list list"

text \<open>The read \<open>dist[i][j]\<close> and the write \<open>dist[i][j] = v\<close> (made after the read).\<close>

definition dist_get :: "int list list \<Rightarrow> int \<Rightarrow> int \<Rightarrow> error + int" where
  "dist_get dist i j = (case at dist i of Inl e \<Rightarrow> Inl e | Inr row \<Rightarrow> at row j)"

definition dist_set :: "int list list \<Rightarrow> int \<Rightarrow> int \<Rightarrow> int \<Rightarrow> int list list" where
  "dist_set dist i j v = dist[nat i := (dist ! nat i)[nat j := v]]"

text \<open>Lines 69 to 79: the loop over the flights leaving the current city.\<close>

fun relax :: "int \<Rightarrow> int \<Rightarrow> Edge list \<Rightarrow> state \<Rightarrow> error + state" where
  "relax current_cost current_stops [] (pq, dist) = Inr (pq, dist)"
| "relax current_cost current_stops (edge # edges) (pq, dist) =
     (let next_city = to edge;
          flight_cost = cost edge
      in if \<not> in_int (current_cost + flight_cost) then Inl SignedOverflow
         else let new_cost = current_cost + flight_cost
         in if \<not> in_int (current_stops + 1) then Inl SignedOverflow
            else (case dist_get dist next_city (current_stops + 1) of
                    Inl e \<Rightarrow> Inl e
                  | Inr d \<Rightarrow>
                      if new_cost < d
                      then relax current_cost current_stops edges
                             (pq_push (new_cost, next_city, current_stops + 1) pq,
                              dist_set dist next_city (current_stops + 1) new_cost)
                      else relax current_cost current_stops edges (pq, dist)))"

text \<open>Lines 54 to 80: one turn of the \<open>while\<close> loop, which returns or goes on.\<close>

datatype loop = Return int | Continue state

definition search_step ::
  "(FlightTuple list \<Rightarrow> nat) \<Rightarrow> Edge list list \<Rightarrow> int \<Rightarrow> int \<Rightarrow> state \<Rightarrow> error + loop" where
  "search_step tie adj dst k s =
     (case s of (pq, dist) \<Rightarrow>
        if pq = [] then Inr (Return (- 1))
        else (case pq_top tie pq of (current_cost, current_city, current_stops) \<Rightarrow>
          let pq1 = pq_pop tie pq
          in if current_city = dst then Inr (Return current_cost)
             else if current_stops > k then Inr (Continue (pq1, dist))
             else (case at adj current_city of
                     Inl e \<Rightarrow> Inl e
                   | Inr edges \<Rightarrow>
                       (case relax current_cost current_stops edges (pq1, dist) of
                          Inl e \<Rightarrow> Inl e
                        | Inr s' \<Rightarrow> Inr (Continue s')))))"

text \<open>
  The loop ends because a turn either lowers an entry of \<open>dist\<close>, which cannot go below
  \<open>INT_MIN\<close>, or leaves \<open>dist\<close> as it is and makes the queue shorter.
\<close>

definition dist_weight :: "int list list \<Rightarrow> nat" where
  "dist_weight dist = sum_list (map (\<lambda>row. sum_list (map (\<lambda>d. nat (d - INT_MIN)) row)) dist)"

definition search_turns ::
  "(FlightTuple list \<Rightarrow> nat) \<Rightarrow> Edge list list \<Rightarrow> int \<Rightarrow> int \<Rightarrow> (state \<times> state) set" where
  "search_turns tie adj dst k = {(s', s). search_step tie adj dst k s = Inr (Continue s')}"

text \<open>Lines 54 to 83: the \<open>while\<close> loop and the \<open>return -1\<close> after it.\<close>

function search ::
  "(FlightTuple list \<Rightarrow> nat) \<Rightarrow> Edge list list \<Rightarrow> int \<Rightarrow> int \<Rightarrow> state \<Rightarrow> error + int" where
  "search tie adj dst k s =
     (case search_step tie adj dst k s of
        Inl e \<Rightarrow> Inl e
      | Inr (Return r) \<Rightarrow> Inr r
      | Inr (Continue s') \<Rightarrow> search tie adj dst k s')"
  by pat_completeness auto

text \<open>
  Lines 34 to 84. \<open>std::vector\<close> takes its size as \<open>size_t\<close>, so a negative \<open>n\<close> or
  \<open>k + 2\<close> asks for more than \<open>max_size()\<close> elements and throws.
\<close>

definition findCheapestPrice ::
  "(FlightTuple list \<Rightarrow> nat) \<Rightarrow> int \<Rightarrow> int list list \<Rightarrow> int \<Rightarrow> int \<Rightarrow> int \<Rightarrow> error + int" where
  "findCheapestPrice tie n flights src dst k =
     (if n < 0 then Inl LengthError
      else (case build_adj flights (replicate (nat n) []) of
              Inl e \<Rightarrow> Inl e
            | Inr adj \<Rightarrow>
                let pq = pq_push (0, src, 0) []
                in if \<not> in_int (k + 2) then Inl SignedOverflow
                   else if k + 2 < 0 then Inl LengthError
                   else let dist = replicate (nat n) (replicate (nat (k + 2)) INT_MAX)
                        in if \<not> (0 \<le> src \<and> src < n \<and> 0 < k + 2) then Inl OutOfBounds
                           else search tie adj dst k (pq, dist_set dist src 0 0)))"

text \<open>
  The specification side: the flights as directed edges, walks through them, and the
  walks the stop limit admits. A walk of \<open>m \<ge> 1\<close> edges has \<open>m - 1\<close> intermediate
  stops, so at most \<open>k\<close> stops means at most \<open>k + 1\<close> edges; the empty walk is the
  trivial route from a city to itself.
\<close>

definition edges_of :: "int list list \<Rightarrow> (int \<times> int \<times> int) list" where
  "edges_of flights = map (\<lambda>flight. (flight ! 0, flight ! 1, flight ! 2)) flights"

fun walk :: "int \<Rightarrow> (int \<times> int \<times> int) list \<Rightarrow> int \<Rightarrow> bool" where
  "walk u [] v = (u = v)"
| "walk u ((a, b, c) # es) v = (a = u \<and> walk b es v)"

definition walk_cost :: "(int \<times> int \<times> int) list \<Rightarrow> int" where
  "walk_cost es = sum_list (map (\<lambda>(a, b, c). c) es)"

definition admissible :: "int list list \<Rightarrow> int \<Rightarrow> int \<Rightarrow> int \<Rightarrow> (int \<times> int \<times> int) list \<Rightarrow> bool" where
  "admissible flights src dst k es =
     (set es \<subseteq> set (edges_of flights) \<and> walk src es dst \<and> int (length es) \<le> k + 1)"

text \<open>
  The cities a walk from \<open>u\<close> passes, in order; the walk is a simple path when no city
  occurs twice among them.
\<close>

definition cities :: "int \<Rightarrow> (int \<times> int \<times> int) list \<Rightarrow> int list" where
  "cities u es = u # map (\<lambda>(a, b, c). b) es"

definition simple :: "int \<Rightarrow> (int \<times> int \<times> int) list \<Rightarrow> bool" where
  "simple u es = distinct (cities u es)"

text \<open>The inputs of the contract: node identifiers in range, and costs not negative.\<close>

definition valid_nodes :: "int \<Rightarrow> int list list \<Rightarrow> int \<Rightarrow> int \<Rightarrow> bool" where
  "valid_nodes n flights src dst =
     (1 \<le> n \<and> 0 \<le> src \<and> src < n \<and> 0 \<le> dst \<and> dst < n \<and>
      list_all (\<lambda>flight. 3 \<le> length flight \<and> 0 \<le> flight ! 0 \<and> flight ! 0 < n \<and>
                          0 \<le> flight ! 1 \<and> flight ! 1 < n) flights)"

definition nonneg_costs :: "int list list \<Rightarrow> bool" where
  "nonneg_costs flights = list_all (\<lambda>flight. 0 \<le> flight ! 2) flights"

section \<open>The invariant of the search loop\<close>

text \<open>
  The predicates of the correctness proof: the shape of the table, what the loop over the
  flights of a city establishes, and what holds of the queue and the table at the head
  of the \<open>while\<close> loop.
\<close>

definition dget :: "int list list \<Rightarrow> int \<Rightarrow> int \<Rightarrow> int" where
  "dget dist v s = dist ! nat v ! nat s"

definition table_ok :: "int \<Rightarrow> int \<Rightarrow> int list list \<Rightarrow> bool" where
  "table_ok n k dist = (length dist = nat n \<and> (\<forall>i<nat n. length (dist ! i) = nat (k + 2)))"

definition cell :: "int \<Rightarrow> int \<Rightarrow> int \<Rightarrow> int \<Rightarrow> bool" where
  "cell n k v s = (0 \<le> v \<and> v < n \<and> 0 \<le> s \<and> s < k + 2)"

text \<open>What the loop over the flights of one city has done when it ends.\<close>

definition relaxed :: "int \<Rightarrow> int \<Rightarrow> int \<Rightarrow> int \<Rightarrow> Edge list \<Rightarrow> state \<Rightarrow> state \<Rightarrow> bool" where
  "relaxed n k cc cs es s s' =
     (table_ok n k (snd s') \<and> set (fst s) \<subseteq> set (fst s') \<and>
      (\<forall>v j. cell n k v j \<longrightarrow>
         dget (snd s') v j \<le> dget (snd s) v j \<and>
         (dget (snd s') v j \<noteq> dget (snd s) v j \<longrightarrow> (dget (snd s') v j, v, j) \<in> set (fst s'))) \<and>
      (\<forall>e\<in>set (fst s'). e \<in> set (fst s) \<or>
         (\<exists>edge\<in>set es. e = (cc + cost edge, to edge, cs + 1) \<and>
            cc + cost edge < dget (snd s) (to edge) (cs + 1))) \<and>
      (\<forall>edge\<in>set es. cell n k (to edge) (cs + 1) \<and> dget (snd s') (to edge) (cs + 1) \<le> cc + cost edge))"

definition graph_ok :: "int \<Rightarrow> (int \<times> int \<times> int) list \<Rightarrow> Edge list list \<Rightarrow> bool" where
  "graph_ok n E adj =
     (length adj = nat n \<and>
      (\<forall>(a, b, c)\<in>set E. 0 \<le> a \<and> a < n \<and> 0 \<le> b \<and> b < n) \<and>
      (\<forall>u. 0 \<le> u \<and> u < n \<longrightarrow> set (adj ! nat u) = {\<lparr>to = b, cost = c\<rparr> | b c. (u, b, c) \<in> set E}))"

definition inv_pq :: "int \<Rightarrow> (int \<times> int \<times> int) list \<Rightarrow> int \<Rightarrow> int \<Rightarrow> FlightTuple list \<Rightarrow> bool" where
  "inv_pq n E src k pq =
     (\<forall>(c, v, j)\<in>set pq. 0 \<le> v \<and> v < n \<and> 0 \<le> j \<and> j \<le> k + 1 \<and> c < INT_MAX \<and>
        (\<exists>es. set es \<subseteq> set E \<and> walk src es v \<and> int (length es) = j \<and> walk_cost es = c))"

definition inv_tab :: "int \<Rightarrow> int \<Rightarrow> int \<Rightarrow> int list list \<Rightarrow> bool" where
  "inv_tab n k src dist =
     (table_ok n k dist \<and> (\<forall>v j. cell n k v j \<longrightarrow> dget dist v j \<le> INT_MAX) \<and>
      cell n k src 0 \<and> dget dist src 0 \<le> 0)"

definition inv_exp ::
  "int \<Rightarrow> (int \<times> int \<times> int) list \<Rightarrow> int \<Rightarrow> int \<Rightarrow> FlightTuple list \<Rightarrow> int list list \<Rightarrow> bool" where
  "inv_exp n E dst k pq dist =
     (\<forall>v j. 0 \<le> v \<and> v < n \<and> v \<noteq> dst \<and> 0 \<le> j \<and> j \<le> k \<and> dget dist v j < INT_MAX \<longrightarrow>
        (dget dist v j, v, j) \<in> set pq \<or>
        (\<forall>(a, b, c)\<in>set E. a = v \<longrightarrow> dget dist b (j + 1) \<le> dget dist v j + c))"

definition inv_dst :: "int \<Rightarrow> int \<Rightarrow> FlightTuple list \<Rightarrow> int list list \<Rightarrow> bool" where
  "inv_dst dst k pq dist =
     (\<forall>j. 0 \<le> j \<and> j \<le> k + 1 \<and> dget dist dst j < INT_MAX \<longrightarrow> (dget dist dst j, dst, j) \<in> set pq)"

definition search_inv :: "int \<Rightarrow> (int \<times> int \<times> int) list \<Rightarrow> int \<Rightarrow> int \<Rightarrow> int \<Rightarrow> state \<Rightarrow> bool" where
  "search_inv n E src dst k s =
     (inv_tab n k src (snd s) \<and> inv_pq n E src k (fst s) \<and>
      inv_exp n E dst k (fst s) (snd s) \<and> inv_dst dst k (fst s) (snd s))"

definition nonneg :: "(int \<times> int \<times> int) list \<Rightarrow> bool" where
  "nonneg E = (\<forall>(a, b, c)\<in>set E. 0 \<le> c)"

text \<open>What a returned value says about the admissible walks.\<close>

definition answer :: "(int \<times> int \<times> int) list \<Rightarrow> int \<Rightarrow> int \<Rightarrow> int \<Rightarrow> int \<Rightarrow> bool" where
  "answer E src dst k r =
     ((r = - 1 \<and>
       (\<forall>w. set w \<subseteq> set E \<and> walk src w dst \<and> int (length w) \<le> k + 1 \<longrightarrow> INT_MAX \<le> walk_cost w)) \<or>
      (0 \<le> r \<and> r < INT_MAX \<and>
       (\<exists>w. set w \<subseteq> set E \<and> walk src w dst \<and> int (length w) \<le> k + 1 \<and> walk_cost w = r) \<and>
       (\<forall>w. set w \<subseteq> set E \<and> walk src w dst \<and> int (length w) \<le> k + 1 \<longrightarrow> r \<le> walk_cost w)))"

definition start :: "int \<Rightarrow> int \<Rightarrow> int \<Rightarrow> state" where
  "start n src k =
     (pq_push (0, src, 0) [], dist_set (replicate (nat n) (replicate (nat (k + 2)) INT_MAX)) src 0 0)"

text \<open>
  For the absence of out-of-range accesses and of overflow: a graph whose costs are at
  most \<open>C\<close> in absolute value, and a queue whose entries are in range, an entry with
  \<open>j\<close> stops costing at most \<open>j * C\<close> in absolute value.
\<close>

definition graph_bnd :: "int \<Rightarrow> int \<Rightarrow> Edge list list \<Rightarrow> bool" where
  "graph_bnd n C adj =
     (length adj = nat n \<and>
      (\<forall>u<nat n. \<forall>edge\<in>set (adj ! u). 0 \<le> to edge \<and> to edge < n \<and> \<bar>cost edge\<bar> \<le> C))"

definition inv_bnd :: "int \<Rightarrow> int \<Rightarrow> int \<Rightarrow> state \<Rightarrow> bool" where
  "inv_bnd n k C s =
     (table_ok n k (snd s) \<and>
      (\<forall>(c, v, j)\<in>set (fst s). 0 \<le> v \<and> v < n \<and> 0 \<le> j \<and> j \<le> k + 1 \<and> \<bar>c\<bar> \<le> j * C))"

text \<open>
  The order in which results are compared: the result -1 (unreachable) is costlier than
  every cost.
\<close>

definition no_costlier :: "int \<Rightarrow> int \<Rightarrow> bool" where
  "no_costlier r2 r1 = (r1 = - 1 \<or> (r2 \<noteq> - 1 \<and> r2 \<le> r1))"

text \<open>A fixed choice among entries of equal cost, for the concrete runs below.\<close>

definition first_tie :: "FlightTuple list \<Rightarrow> nat" where
  "first_tie pq = 0"

section \<open>Termination of the search loop\<close>

lemma nat_shift_less: "INT_MIN \<le> v \<Longrightarrow> v < d \<Longrightarrow> nat (v - INT_MIN) < nat (d - INT_MIN)"
  by simp

lemma sum_list_update_less:
  fixes f :: "'a \<Rightarrow> nat"
  shows "j < length xs \<Longrightarrow> f v < f (xs ! j) \<Longrightarrow> sum_list (map f (xs[j := v])) < sum_list (map f xs)"
proof (induction xs arbitrary: j)
  case Nil then show ?case by simp
next
  case (Cons x xs)
  then show ?case by (cases j) auto
qed

lemma dist_weight_set_less:
  assumes "0 \<le> i" "i < int (length dist)" "0 \<le> j" "j < int (length (dist ! nat i))"
    and "INT_MIN \<le> v" "v < dist ! nat i ! nat j"
  shows "dist_weight (dist_set dist i j v) < dist_weight dist"
proof -
  define f where "f = (\<lambda>d. nat (d - INT_MIN))"
  define g where "g = (\<lambda>row. sum_list (map f row))"
  have j: "nat j < length (dist ! nat i)" and i: "nat i < length dist"
    using assms by auto
  have "f v < f (dist ! nat i ! nat j)"
    using assms by (simp add: f_def)
  from sum_list_update_less[OF j this]
  have "g ((dist ! nat i)[nat j := v]) < g (dist ! nat i)"
    by (simp add: g_def)
  from sum_list_update_less[OF i this]
  show ?thesis by (simp add: dist_weight_def dist_set_def g_def f_def)
qed

lemma dist_get_Inr:
  "dist_get dist i j = Inr d \<Longrightarrow>
     0 \<le> i \<and> i < int (length dist) \<and> 0 \<le> j \<and> j < int (length (dist ! nat i)) \<and> d = dist ! nat i ! nat j"
  by (auto simp: dist_get_def at_def split: if_splits sum.splits)

lemma relax_measure:
  "relax cc cs es (pq, dist) = Inr (pq', dist') \<Longrightarrow>
     dist_weight dist' < dist_weight dist \<or> (dist' = dist \<and> pq' = pq)"
proof (induction es arbitrary: pq dist)
  case Nil then show ?case by simp
next
  case (Cons e es)
  show ?case
  proof (cases "dist_get dist (to e) (cs + 1)")
    case (Inl x) with Cons.prems show ?thesis by (simp add: Let_def split: if_splits)
  next
    case (Inr d)
    note g = dist_get_Inr[OF Inr]
    show ?thesis
    proof (cases "cc + cost e < d")
      case True
      with Cons.prems Inr have ok: "in_int (cc + cost e)"
        and r: "relax cc cs es (pq_push (cc + cost e, to e, cs + 1) pq, dist_set dist (to e) (cs + 1) (cc + cost e)) = Inr (pq', dist')"
        by (auto simp: Let_def split: if_splits)
      have "dist_weight (dist_set dist (to e) (cs + 1) (cc + cost e)) < dist_weight dist"
        using g True ok by (intro dist_weight_set_less) (auto simp: in_int_def)
      with Cons.IH[OF r] show ?thesis by auto
    next
      case False
      with Cons.prems Inr have "relax cc cs es (pq, dist) = Inr (pq', dist')"
        by (auto simp: Let_def split: if_splits)
      from Cons.IH[OF this] show ?thesis .
    qed
  qed
qed

lemma Min_fst_in: "pq \<noteq> [] \<Longrightarrow> \<exists>e\<in>set pq. fst e = Min (set (map fst pq))"
proof -
  assume "pq \<noteq> []"
  then have "Min (set (map fst pq)) \<in> set (map fst pq)" by (intro Min_in) auto
  then obtain e where "e \<in> set pq" "fst e = Min (set (map fst pq))" by force
  then show ?thesis by blast
qed

lemma pq_top_in: "pq \<noteq> [] \<Longrightarrow> pq_top tie pq \<in> set pq"
proof -
  assume ne: "pq \<noteq> []"
  let ?ms = "filter (\<lambda>e. fst e = Min (set (map fst pq))) pq"
  from Min_fst_in[OF ne] have "?ms \<noteq> []" by (auto simp: filter_empty_conv)
  then have "?ms ! (tie pq mod length ?ms) \<in> set ?ms" by (intro nth_mem) simp
  then show ?thesis by (simp add: pq_top_def Let_def)
qed

lemma pq_top_min: "pq \<noteq> [] \<Longrightarrow> e \<in> set pq \<Longrightarrow> fst (pq_top tie pq) \<le> fst e"
proof -
  assume ne: "pq \<noteq> []" and e: "e \<in> set pq"
  let ?ms = "filter (\<lambda>e. fst e = Min (set (map fst pq))) pq"
  from Min_fst_in[OF ne] have "?ms \<noteq> []" by (auto simp: filter_empty_conv)
  then have "?ms ! (tie pq mod length ?ms) \<in> set ?ms" by (intro nth_mem) simp
  then have "fst (pq_top tie pq) = Min (set (map fst pq))" by (simp add: pq_top_def Let_def)
  moreover have "Min (set (map fst pq)) \<le> fst e" using e by (intro Min_le) auto
  ultimately show ?thesis by simp
qed

lemma length_pq_pop: "pq \<noteq> [] \<Longrightarrow> length (pq_pop tie pq) < length pq"
proof -
  assume ne: "pq \<noteq> []"
  then have "0 < length pq" by simp
  with pq_top_in[OF ne, of tie] show ?thesis
    by (simp add: pq_pop_def length_remove1)
qed

lemma search_step_measure:
  "search_step tie adj dst k (pq, dist) = Inr (Continue (pq', dist')) \<Longrightarrow>
     dist_weight dist' < dist_weight dist \<or> (dist_weight dist' = dist_weight dist \<and> length pq' < length pq)"
  apply (auto simp: search_step_def Let_def split: if_splits prod.splits sum.splits dest!: relax_measure)
  using length_pq_pop apply blast+
  done

lemma search_turns_sub:
  "search_turns tie adj dst k \<subseteq> inv_image (less_than <*lex*> less_than) (\<lambda>(pq, dist). (dist_weight dist, length pq))"
  using search_step_measure by (auto simp: search_turns_def) 

lemma wf_search_turns: "wf (search_turns tie adj dst k)"
  by (rule wf_subset[OF _ search_turns_sub]) auto

termination search
proof (relation "inv_image (less_than <*lex*> less_than)
         (\<lambda>(tie, adj, dst, k, (pq, dist)). (dist_weight dist, length pq))")
  show "wf (inv_image (less_than <*lex*> less_than)
         (\<lambda>(tie, adj, dst, k, (pq, dist)). (dist_weight dist, length pq)))"
    by (intro wf_inv_image wf_lex_prod wf_less_than)
next
  fix tie adj dst k s x2 x2a
  assume "search_step tie adj dst k s = Inr x2" "x2 = Continue x2a"
  then show "((tie, adj, dst, k, x2a), (tie, adj, dst, k, s)) \<in> inv_image (less_than <*lex*> less_than)
         (\<lambda>(tie, adj, dst, k, (pq, dist)). (dist_weight dist, length pq))"
    using search_step_measure[of tie adj dst k "fst s" "snd s" "fst x2a" "snd x2a"]
    by (auto simp: case_prod_beta)
qed

declare search.simps [simp del]

lemma search_Return:
  "search_step tie adj dst k s = Inr (Return r) \<Longrightarrow> search tie adj dst k s = Inr r"
  by (simp add: search.simps)

lemma search_Continue:
  "search_step tie adj dst k s = Inr (Continue s') \<Longrightarrow>
     search tie adj dst k s = search tie adj dst k s'"
  by (simp add: search.simps)

lemma search_Inl:
  "search_step tie adj dst k s = Inl e \<Longrightarrow> search tie adj dst k s = Inl e"
  by (simp add: search.simps)

section \<open>The table and the relaxation loop\<close>

lemma dist_get_cell:
  "table_ok n k dist \<Longrightarrow> cell n k v s \<Longrightarrow> dist_get dist v s = Inr (dget dist v s)"
  by (auto simp: table_ok_def cell_def dist_get_def at_def dget_def)

lemma dist_get_not_cell:
  "table_ok n k dist \<Longrightarrow> \<not> cell n k v s \<Longrightarrow> dist_get dist v s = Inl OutOfBounds"
  by (auto simp: table_ok_def cell_def dist_get_def at_def split: sum.splits if_splits)

lemma table_ok_dist_set:
  "table_ok n k dist \<Longrightarrow> table_ok n k (dist_set dist v s x)"
proof (cases "nat v < length dist")
  case True
  then show "table_ok n k dist \<Longrightarrow> table_ok n k (dist_set dist v s x)"
    by (auto simp: table_ok_def dist_set_def nth_list_update)
next
  case False
  then have "length dist \<le> nat v" by simp
  then have "dist_set dist v s x = dist"
    unfolding dist_set_def by (rule list_update_beyond)
  then show "table_ok n k dist \<Longrightarrow> table_ok n k (dist_set dist v s x)"
    by simp
qed

lemma dget_dist_set:
  "table_ok n k dist \<Longrightarrow> cell n k v s \<Longrightarrow> cell n k v' s' \<Longrightarrow>
     dget (dist_set dist v s x) v' s' = (if v' = v \<and> s' = s then x else dget dist v' s')"
  by (auto simp: table_ok_def cell_def dget_def dist_set_def nth_list_update)

lemma relaxed_Nil: "table_ok n k dist \<Longrightarrow> relaxed n k cc cs [] (pq, dist) (pq, dist)"
  by (simp add: relaxed_def)

lemma relaxed_skip:
  assumes "table_ok n k dist" "cell n k (to edge) (cs + 1)"
    and "\<not> cc + cost edge < dget dist (to edge) (cs + 1)"
  shows "relaxed n k cc cs [edge] (pq, dist) (pq, dist)"
  using assms by (simp add: relaxed_def)

lemma relaxed_push:
  assumes "table_ok n k dist" "cell n k (to edge) (cs + 1)"
    and "cc + cost edge < dget dist (to edge) (cs + 1)"
  shows "relaxed n k cc cs [edge] (pq, dist)
           (pq_push (cc + cost edge, to edge, cs + 1) pq,
            dist_set dist (to edge) (cs + 1) (cc + cost edge))"
  using assms by (auto simp: relaxed_def table_ok_dist_set dget_dist_set pq_push_def)

lemma relaxed_Cons:
  assumes 1: "relaxed n k cc cs [edge] s s1" and 2: "relaxed n k cc cs es s1 s'"
  shows "relaxed n k cc cs (edge # es) s s'"
  unfolding relaxed_def
proof (intro conjI allI impI ballI)
  show "table_ok n k (snd s')" using 2 by (simp add: relaxed_def)
  show "set (fst s) \<subseteq> set (fst s')" using 1 2 by (auto simp: relaxed_def)
next
  fix v j assume c: "cell n k v j"
  from 1 c have a: "dget (snd s1) v j \<le> dget (snd s) v j"
    and a': "dget (snd s1) v j \<noteq> dget (snd s) v j \<Longrightarrow> (dget (snd s1) v j, v, j) \<in> set (fst s1)"
    by (auto simp: relaxed_def)
  from 2 c have b: "dget (snd s') v j \<le> dget (snd s1) v j"
    and b': "dget (snd s') v j \<noteq> dget (snd s1) v j \<Longrightarrow> (dget (snd s') v j, v, j) \<in> set (fst s')"
    by (auto simp: relaxed_def)
  from 2 have sub: "set (fst s1) \<subseteq> set (fst s')" by (simp add: relaxed_def)
  show "dget (snd s') v j \<le> dget (snd s) v j" using a b by simp
  assume ne: "dget (snd s') v j \<noteq> dget (snd s) v j"
  show "(dget (snd s') v j, v, j) \<in> set (fst s')"
  proof (cases "dget (snd s') v j = dget (snd s1) v j")
    case True
    with ne a' sub show ?thesis by auto
  next
    case False
    with b' show ?thesis by simp
  qed
next
  fix e assume e: "e \<in> set (fst s')"
  from 2 e have "e \<in> set (fst s1) \<or>
     (\<exists>edge\<in>set es. e = (cc + cost edge, to edge, cs + 1) \<and>
            cc + cost edge < dget (snd s1) (to edge) (cs + 1))"
    by (simp add: relaxed_def)
  then show "e \<in> set (fst s) \<or>
     (\<exists>edge\<in>set (edge # es). e = (cc + cost edge, to edge, cs + 1) \<and>
            cc + cost edge < dget (snd s) (to edge) (cs + 1))"
  proof
    assume "e \<in> set (fst s1)"
    with 1 show ?thesis by (auto simp: relaxed_def)
  next
    assume "\<exists>edge\<in>set es. e = (cc + cost edge, to edge, cs + 1) \<and>
            cc + cost edge < dget (snd s1) (to edge) (cs + 1)"
    then obtain x where x: "x \<in> set es" "e = (cc + cost x, to x, cs + 1)"
      "cc + cost x < dget (snd s1) (to x) (cs + 1)" by blast
    from 2 x(1) have "cell n k (to x) (cs + 1)" by (simp add: relaxed_def)
    with 1 have "dget (snd s1) (to x) (cs + 1) \<le> dget (snd s) (to x) (cs + 1)"
      by (simp add: relaxed_def)
    with x show ?thesis by auto
  qed
next
  fix x assume x: "x \<in> set (edge # es)"
  show "cell n k (to x) (cs + 1)" using 1 2 x by (auto simp: relaxed_def)
  then have "dget (snd s') (to x) (cs + 1) \<le> dget (snd s1) (to x) (cs + 1)"
    using 2 by (simp add: relaxed_def)
  moreover have "x \<in> set es \<Longrightarrow> dget (snd s') (to x) (cs + 1) \<le> cc + cost x"
    using 2 by (simp add: relaxed_def)
  moreover have "x = edge \<Longrightarrow> dget (snd s1) (to x) (cs + 1) \<le> cc + cost x"
    using 1 by (simp add: relaxed_def)
  ultimately show "dget (snd s') (to x) (cs + 1) \<le> cc + cost x"
    using x by auto
qed

lemma relax_relaxed:
  "table_ok n k dist \<Longrightarrow> relax cc cs es (pq, dist) = Inr s' \<Longrightarrow>
     relaxed n k cc cs es (pq, dist) s'"
proof (induction es arbitrary: pq dist)
  case Nil
  then show ?case by (auto simp: relaxed_Nil)
next
  case (Cons e es)
  from Cons.prems(2) have ok: "in_int (cc + cost e)"
    by (auto simp: Let_def split: if_splits)
  from Cons.prems(2) have c: "cell n k (to e) (cs + 1)"
    using dist_get_not_cell[OF Cons.prems(1), of "to e" "cs + 1"]
    by (auto simp: Let_def split: if_splits sum.splits)
  note g = dist_get_cell[OF Cons.prems(1) c]
  show ?case
  proof (cases "cc + cost e < dget dist (to e) (cs + 1)")
    case True
    let ?s1 = "(pq_push (cc + cost e, to e, cs + 1) pq, dist_set dist (to e) (cs + 1) (cc + cost e))"
    from Cons.prems(2) g True have r: "relax cc cs es ?s1 = Inr s'"
      by (auto simp: Let_def split: if_splits)
    have "relaxed n k cc cs es ?s1 s'"
      by (rule Cons.IH[OF table_ok_dist_set[OF Cons.prems(1)] r])
    with relaxed_push[OF Cons.prems(1) c True] show ?thesis
      by (rule relaxed_Cons)
  next
    case False
    from Cons.prems(2) g False have r: "relax cc cs es (pq, dist) = Inr s'"
      by (auto simp: Let_def split: if_splits)
    have "relaxed n k cc cs es (pq, dist) s'"
      by (rule Cons.IH[OF Cons.prems(1) r])
    with relaxed_skip[OF Cons.prems(1) c False] show ?thesis
      by (rule relaxed_Cons)
  qed
qed

lemma walk_snoc: "walk u (es @ [(a, b, c)]) v \<longleftrightarrow> walk u es a \<and> b = v"
  by (induction u es v rule: walk.induct) auto

lemma walk_cost_snoc: "walk_cost (es @ [(a, b, c)]) = walk_cost es + c"
  by (simp add: walk_cost_def)

lemma inv_discard:
  assumes i: "search_inv n E src dst k (pq, dist)" and v: "v \<noteq> dst" and j: "k < j"
  shows "search_inv n E src dst k (remove1 (c, v, j) pq, dist)"
proof -
  have sub: "set (remove1 (c, v, j) pq) \<subseteq> set pq" by (rule set_remove1_subset)
  have keep: "\<And>e. e \<in> set pq \<Longrightarrow> e \<noteq> (c, v, j) \<Longrightarrow> e \<in> set (remove1 (c, v, j) pq)"
    by simp
  have "inv_pq n E src k (remove1 (c, v, j) pq)"
    using i sub unfolding search_inv_def inv_pq_def by auto
  moreover have "inv_exp n E dst k (remove1 (c, v, j) pq) dist"
    unfolding inv_exp_def
  proof (intro allI impI)
    fix v' j'
    assume a: "0 \<le> v' \<and> v' < n \<and> v' \<noteq> dst \<and> 0 \<le> j' \<and> j' \<le> k \<and> dget dist v' j' < INT_MAX"
    with i have "(dget dist v' j', v', j') \<in> set pq \<or>
        (\<forall>(a, b, c)\<in>set E. a = v' \<longrightarrow> dget dist b (j' + 1) \<le> dget dist v' j' + c)"
      unfolding search_inv_def inv_exp_def by simp
    moreover have "(dget dist v' j', v', j') \<noteq> (c, v, j)" using a j by auto
    ultimately show "(dget dist v' j', v', j') \<in> set (remove1 (c, v, j) pq) \<or>
        (\<forall>(a, b, c)\<in>set E. a = v' \<longrightarrow> dget dist b (j' + 1) \<le> dget dist v' j' + c)"
      using keep by blast
  qed
  moreover have "inv_dst dst k (remove1 (c, v, j) pq) dist"
    using i v keep unfolding search_inv_def inv_dst_def by auto
  ultimately show ?thesis using i by (simp add: search_inv_def)
qed

lemma inv_expand:
  assumes i: "search_inv n E src dst k (pq, dist)" and g: "graph_ok n E adj"
    and e: "(c, v, j) \<in> set pq" and v: "v \<noteq> dst" and j: "j \<le> k" and d: "0 \<le> dst" "dst < n"
    and r: "relaxed n k c j (adj ! nat v) (remove1 (c, v, j) pq, dist) (pq', dist')"
  shows "search_inv n E src dst k (pq', dist')"
proof -
  let ?pq1 = "remove1 (c, v, j) pq"
  from i have it: "inv_tab n k src dist" and ip: "inv_pq n E src k pq"
    and ie: "inv_exp n E dst k pq dist" and id: "inv_dst dst k pq dist"
    by (simp_all add: search_inv_def)
  from ip e have vr: "0 \<le> v" "v < n" and jr: "0 \<le> j" and cm: "c < INT_MAX"
    and w: "\<exists>es. set es \<subseteq> set E \<and> walk src es v \<and> int (length es) = j \<and> walk_cost es = c"
    unfolding inv_pq_def by auto
  from g vr have adj: "set (adj ! nat v) = {\<lparr>to = b, cost = c\<rparr> | b c. (v, b, c) \<in> set E}"
    and rng: "\<And>a b c. (a, b, c) \<in> set E \<Longrightarrow> 0 \<le> a \<and> a < n \<and> 0 \<le> b \<and> b < n"
    unfolding graph_ok_def by auto
  have sub: "set (remove1 (c, v, j) pq) \<subseteq> set pq" by (rule set_remove1_subset)
  have keep: "\<And>e. e \<in> set pq \<Longrightarrow> e \<noteq> (c, v, j) \<Longrightarrow> e \<in> set pq'"
  proof -
    fix e assume "e \<in> set pq" "e \<noteq> (c, v, j)"
    then have "e \<in> set ?pq1" by simp
    with r show "e \<in> set pq'" by (auto simp: relaxed_def)
  qed
  from r have le: "\<And>v j. cell n k v j \<Longrightarrow> dget dist' v j \<le> dget dist v j"
    and chg: "\<And>v j. cell n k v j \<Longrightarrow> dget dist' v j \<noteq> dget dist v j \<Longrightarrow> (dget dist' v j, v, j) \<in> set pq'"
    and new: "\<And>e. e \<in> set pq' \<Longrightarrow> e \<in> set ?pq1 \<or>
         (\<exists>edge\<in>set (adj ! nat v). e = (c + cost edge, to edge, j + 1) \<and>
            c + cost edge < dget dist (to edge) (j + 1))"
    and fin: "\<And>edge. edge \<in> set (adj ! nat v) \<Longrightarrow> dget dist' (to edge) (j + 1) \<le> c + cost edge"
    and tab: "table_ok n k dist'"
    by (auto simp: relaxed_def)
  have T: "inv_tab n k src dist'"
    unfolding inv_tab_def
  proof (intro conjI allI impI)
    show "table_ok n k dist'" by (rule tab)
    show "dget dist' x y \<le> INT_MAX" if "cell n k x y" for x y
    proof -
      from it that have "dget dist x y \<le> INT_MAX" by (simp add: inv_tab_def)
      with le[OF that] show ?thesis by simp
    qed
    show "cell n k src 0" using it by (simp add: inv_tab_def)
    then show "dget dist' src 0 \<le> 0"
      using le[of src 0] it by (simp add: inv_tab_def)
  qed
  have P: "inv_pq n E src k pq'"
    unfolding inv_pq_def
  proof (intro ballI)
    fix x assume x: "x \<in> set pq'"
    show "case x of (c, v, j) \<Rightarrow> 0 \<le> v \<and> v < n \<and> 0 \<le> j \<and> j \<le> k + 1 \<and> c < INT_MAX \<and>
        (\<exists>es. set es \<subseteq> set E \<and> walk src es v \<and> int (length es) = j \<and> walk_cost es = c)"
    proof (cases "x \<in> set ?pq1")
      case True
      with sub ip show ?thesis unfolding inv_pq_def by auto
    next
      case False
      with new[OF x] obtain edge where ed: "edge \<in> set (adj ! nat v)"
        "x = (c + cost edge, to edge, j + 1)" "c + cost edge < dget dist (to edge) (j + 1)"
        by blast
      from ed(1) adj have inE: "(v, to edge, cost edge) \<in> set E" by auto
      from rng[OF inE] have tr: "0 \<le> to edge" "to edge < n" by auto
      then have "cell n k (to edge) (j + 1)" using jr j by (simp add: cell_def)
      with it have "dget dist (to edge) (j + 1) \<le> INT_MAX" by (simp add: inv_tab_def)
      with ed(3) have lt: "c + cost edge < INT_MAX" by simp
      from w obtain es where es: "set es \<subseteq> set E" "walk src es v" "int (length es) = j" "walk_cost es = c"
        by blast
      let ?es = "es @ [(v, to edge, cost edge)]"
      have "set ?es \<subseteq> set E \<and> walk src ?es (to edge) \<and> int (length ?es) = j + 1 \<and>
            walk_cost ?es = c + cost edge"
        using es inE by (simp add: walk_snoc walk_cost_snoc)
      then have "\<exists>es. set es \<subseteq> set E \<and> walk src es (to edge) \<and> int (length es) = j + 1 \<and>
            walk_cost es = c + cost edge" by blast
      with ed(2) tr jr j lt show ?thesis by simp
    qed
  qed
  have X: "inv_exp n E dst k pq' dist'"
    unfolding inv_exp_def
  proof (intro allI impI)
    fix v' j'
    assume a: "0 \<le> v' \<and> v' < n \<and> v' \<noteq> dst \<and> 0 \<le> j' \<and> j' \<le> k \<and> dget dist' v' j' < INT_MAX"
    then have c1: "cell n k v' j'" by (simp add: cell_def)
    show "(dget dist' v' j', v', j') \<in> set pq' \<or>
        (\<forall>(a, b, c)\<in>set E. a = v' \<longrightarrow> dget dist' b (j' + 1) \<le> dget dist' v' j' + c)"
    proof (cases "dget dist' v' j' = dget dist v' j'")
      case False
      with chg[OF c1] show ?thesis by simp
    next
      case True
      with a ie have old: "(dget dist v' j', v', j') \<in> set pq \<or>
        (\<forall>(a, b, c)\<in>set E. a = v' \<longrightarrow> dget dist b (j' + 1) \<le> dget dist v' j' + c)"
        unfolding inv_exp_def by simp
      show ?thesis
      proof (cases "(dget dist v' j', v', j') = (c, v, j)")
        case eq: True
        have "\<forall>(a, b, c')\<in>set E. a = v' \<longrightarrow> dget dist' b (j' + 1) \<le> dget dist' v' j' + c'"
        proof (clarify)
          fix b c' assume "(v', b, c') \<in> set E"
          with eq adj have "\<lparr>to = b, cost = c'\<rparr> \<in> set (adj ! nat v)" by auto
          from fin[OF this] have "dget dist' b (j + 1) \<le> c + c'" by simp
          moreover from eq have "j' = j" "dget dist v' j' = c" by blast+
          ultimately show "dget dist' b (j' + 1) \<le> dget dist' v' j' + c'"
            using True by simp
        qed
        then show ?thesis by blast
      next
        case ne: False
        from old show ?thesis
        proof
          assume "(dget dist v' j', v', j') \<in> set pq"
          from keep[OF this ne] True show ?thesis by simp
        next
          assume ex: "\<forall>(a, b, c)\<in>set E. a = v' \<longrightarrow> dget dist b (j' + 1) \<le> dget dist v' j' + c"
          have "\<forall>(a, b, c')\<in>set E. a = v' \<longrightarrow> dget dist' b (j' + 1) \<le> dget dist' v' j' + c'"
          proof (clarify)
            fix b c' assume inE: "(v', b, c') \<in> set E"
            with ex have "dget dist b (j' + 1) \<le> dget dist v' j' + c'" by auto
            moreover from rng[OF inE] a have "cell n k b (j' + 1)" by (simp add: cell_def)
            from le[OF this] have "dget dist' b (j' + 1) \<le> dget dist b (j' + 1)" .
            ultimately show "dget dist' b (j' + 1) \<le> dget dist' v' j' + c'"
              using True by simp
          qed
          then show ?thesis by blast
        qed
      qed
    qed
  qed
  have D: "inv_dst dst k pq' dist'"
    unfolding inv_dst_def
  proof (intro allI impI)
    fix j' assume a: "0 \<le> j' \<and> j' \<le> k + 1 \<and> dget dist' dst j' < INT_MAX"
    show "(dget dist' dst j', dst, j') \<in> set pq'"
    proof (cases "dget dist' dst j' = dget dist dst j'")
      case True
      with a id have "(dget dist dst j', dst, j') \<in> set pq" unfolding inv_dst_def by simp
      from keep[OF this] v True show ?thesis by auto
    next
      case False
      from a d have "cell n k dst j'" by (simp add: cell_def)
      from chg[OF this False] show ?thesis .
    qed
  qed
  from T P X D show ?thesis by (simp add: search_inv_def)
qed

lemma walk_cost_append: "walk_cost (xs @ ys) = walk_cost xs + walk_cost ys"
  by (simp add: walk_cost_def)

lemma walk_cost_nonneg: "nonneg E \<Longrightarrow> set w \<subseteq> set E \<Longrightarrow> 0 \<le> walk_cost w"
  unfolding walk_cost_def nonneg_def by (rule sum_list_nonneg) auto

lemma walk_takeWhile:
  "walk u w dst \<Longrightarrow> walk u (takeWhile (\<lambda>e. fst e \<noteq> dst) w) dst"
  by (induction u w dst rule: walk.induct) auto

lemma walk_cost_takeWhile:
  assumes "nonneg E" "set w \<subseteq> set E"
  shows "walk_cost (takeWhile P w) \<le> walk_cost w"
proof -
  have "set (dropWhile P w) \<subseteq> set E"
    using assms(2) set_dropWhileD by fastforce
  from walk_cost_nonneg[OF assms(1) this]
  have "walk_cost (takeWhile P w) \<le> walk_cost (takeWhile P w @ dropWhile P w)"
    by (simp only: walk_cost_append)
  then show ?thesis by simp
qed

lemma frontier_prefix:
  assumes i: "search_inv n E src dst k (pq, dist)" and g: "graph_ok n E adj" and nn: "nonneg E"
  shows "set p \<subseteq> set E \<Longrightarrow> walk src p v \<Longrightarrow> int (length p) \<le> k + 1 \<Longrightarrow>
         walk_cost p < INT_MAX \<Longrightarrow> \<forall>e\<in>set p. fst e \<noteq> dst \<Longrightarrow>
         dget dist v (int (length p)) \<le> walk_cost p \<or> (\<exists>e\<in>set pq. fst e \<le> walk_cost p)"
proof (induction p arbitrary: v rule: rev_induct)
  case Nil
  then have "v = src" by simp
  with i show ?case by (simp add: search_inv_def inv_tab_def walk_cost_def)
next
  case (snoc x q)
  obtain a b c where x: "x = (a, b, c)" by (cases x)
  from snoc.prems x have q: "set q \<subseteq> set E" "walk src q a" "b = v" "int (length q) \<le> k"
    and inE: "(a, b, c) \<in> set E" and a: "a \<noteq> dst" and qd: "\<forall>e\<in>set q. fst e \<noteq> dst"
    and cp: "walk_cost q + c < INT_MAX"
    by (auto simp: walk_snoc walk_cost_snoc)
  from nn inE have c0: "0 \<le> c" by (auto simp: nonneg_def)
  from g inE have ar: "0 \<le> a" "a < n" by (auto simp: graph_ok_def)
  have cq: "walk_cost (q @ [x]) = walk_cost q + c" by (simp add: x walk_cost_snoc)
  from snoc.IH[OF q(1) q(2) _ _ qd] q(4) cp c0
  have "dget dist a (int (length q)) \<le> walk_cost q \<or> (\<exists>e\<in>set pq. fst e \<le> walk_cost q)"
    by simp
  then show ?case
  proof
    assume "\<exists>e\<in>set pq. fst e \<le> walk_cost q"
    then obtain e where "e \<in> set pq" "fst e \<le> walk_cost q" by blast
    with c0 cq have "e \<in> set pq \<and> fst e \<le> walk_cost (q @ [x])" by simp
    then show ?thesis by blast
  next
    assume d: "dget dist a (int (length q)) \<le> walk_cost q"
    with cp c0 have lt: "dget dist a (int (length q)) < INT_MAX" by simp
    from i have "inv_exp n E dst k pq dist" by (simp add: search_inv_def)
    with ar a q(4) lt
    have "(dget dist a (int (length q)), a, int (length q)) \<in> set pq \<or>
        (\<forall>(a', b, c)\<in>set E. a' = a \<longrightarrow>
            dget dist b (int (length q) + 1) \<le> dget dist a (int (length q)) + c)"
      unfolding inv_exp_def by simp
    then show ?thesis
    proof
      assume m: "(dget dist a (int (length q)), a, int (length q)) \<in> set pq"
      have "fst (dget dist a (int (length q)), a, int (length q)) \<le> walk_cost (q @ [x])"
        using d c0 cq by simp
      with m show ?thesis by blast
    next
      assume "\<forall>(a', b, c)\<in>set E. a' = a \<longrightarrow>
            dget dist b (int (length q) + 1) \<le> dget dist a (int (length q)) + c"
      with inE have "dget dist b (int (length q) + 1) \<le> dget dist a (int (length q)) + c"
        by auto
      with d cq q(3) have "dget dist v (int (length (q @ [x]))) \<le> walk_cost (q @ [x])"
        by (simp add: add.commute)
      then show ?thesis by blast
    qed
  qed
qed

lemma frontier:
  assumes i: "search_inv n E src dst k (pq, dist)" and g: "graph_ok n E adj" and nn: "nonneg E"
    and w: "set w \<subseteq> set E" "walk src w dst" "int (length w) \<le> k + 1" "walk_cost w < INT_MAX"
  shows "\<exists>e\<in>set pq. fst e \<le> walk_cost w"
proof -
  let ?p = "takeWhile (\<lambda>e. fst e \<noteq> dst) w"
  have sp: "set ?p \<subseteq> set E" using w(1) set_takeWhileD by fastforce
  have wp: "walk src ?p dst" by (rule walk_takeWhile[OF w(2)])
  have lp: "int (length ?p) \<le> k + 1"
    using w(3) length_takeWhile_le[of "\<lambda>e. fst e \<noteq> dst" w] by linarith
  have cp: "walk_cost ?p \<le> walk_cost w" by (rule walk_cost_takeWhile[OF nn w(1)])
  with w(4) have cl: "walk_cost ?p < INT_MAX" by simp
  have nd: "\<forall>e\<in>set ?p. fst e \<noteq> dst" using set_takeWhileD by fastforce
  from frontier_prefix[OF i g nn sp wp lp cl nd]
  show ?thesis
  proof
    assume "\<exists>e\<in>set pq. fst e \<le> walk_cost ?p"
    then obtain e where "e \<in> set pq" "fst e \<le> walk_cost ?p" by blast
    with cp have "e \<in> set pq \<and> fst e \<le> walk_cost w" by simp
    then show ?thesis by blast
  next
    assume d: "dget dist dst (int (length ?p)) \<le> walk_cost ?p"
    from i have "inv_dst dst k pq dist" by (simp add: search_inv_def)
    with d cl lp have "(dget dist dst (int (length ?p)), dst, int (length ?p)) \<in> set pq"
      unfolding inv_dst_def by simp
    moreover have "fst (dget dist dst (int (length ?p)), dst, int (length ?p)) \<le> walk_cost w"
      using d cp by simp
    ultimately show ?thesis by blast
  qed
qed

lemma search_step_Continue:
  assumes "search_step tie adj dst k (pq, dist) = Inr (Continue s')"
  obtains c v j where "pq \<noteq> []" "pq_top tie pq = (c, v, j)" "v \<noteq> dst"
    "(k < j \<and> s' = (pq_pop tie pq, dist)) \<or>
     (j \<le> k \<and> 0 \<le> v \<and> v < int (length adj) \<and>
      relax c j (adj ! nat v) (pq_pop tie pq, dist) = Inr s')"
proof -
  obtain c v j where t: "pq_top tie pq = (c, v, j)" by (cases "pq_top tie pq")
  from assms t have "pq \<noteq> []" "v \<noteq> dst"
    "(k < j \<and> s' = (pq_pop tie pq, dist)) \<or>
     (j \<le> k \<and> 0 \<le> v \<and> v < int (length adj) \<and>
      relax c j (adj ! nat v) (pq_pop tie pq, dist) = Inr s')"
    by (auto simp: search_step_def Let_def at_def split: if_splits sum.splits)
  with t that show thesis by blast
qed

lemma search_step_Return:
  assumes "search_step tie adj dst k (pq, dist) = Inr (Return r)"
  shows "(pq = [] \<and> r = - 1) \<or> (pq \<noteq> [] \<and> (\<exists>j. pq_top tie pq = (r, dst, j)))"
proof -
  obtain c v j where t: "pq_top tie pq = (c, v, j)" by (cases "pq_top tie pq")
  from assms t show ?thesis
    by (auto simp: search_step_def Let_def at_def split: if_splits sum.splits)
qed

lemma inv_step:
  assumes i: "search_inv n E src dst k s" and g: "graph_ok n E adj" and d: "0 \<le> dst" "dst < n"
    and st: "search_step tie adj dst k s = Inr (Continue s')"
  shows "search_inv n E src dst k s'"
proof -
  obtain pq dist where s: "s = (pq, dist)" by (cases s)
  obtain pq' dist' where s': "s' = (pq', dist')" by (cases s')
  from st[unfolded s] obtain c v j where ne: "pq \<noteq> []" and t: "pq_top tie pq = (c, v, j)"
    and v: "v \<noteq> dst"
    and c: "(k < j \<and> s' = (pq_pop tie pq, dist)) \<or>
     (j \<le> k \<and> 0 \<le> v \<and> v < int (length adj) \<and>
      relax c j (adj ! nat v) (pq_pop tie pq, dist) = Inr s')"
    by (rule search_step_Continue)
  have pop: "pq_pop tie pq = remove1 (c, v, j) pq" by (simp add: pq_pop_def t)
  from pq_top_in[OF ne, of tie] t have e: "(c, v, j) \<in> set pq" by simp
  from c show ?thesis
  proof
    assume "k < j \<and> s' = (pq_pop tie pq, dist)"
    with inv_discard[OF i[unfolded s] v, of j c] pop show ?thesis by simp
  next
    assume a: "j \<le> k \<and> 0 \<le> v \<and> v < int (length adj) \<and>
      relax c j (adj ! nat v) (pq_pop tie pq, dist) = Inr s'"
    from i s have "table_ok n k dist" by (simp add: search_inv_def inv_tab_def)
    from relax_relaxed[OF this, of c j "adj ! nat v" "pq_pop tie pq" s'] a
    have "relaxed n k c j (adj ! nat v) (remove1 (c, v, j) pq, dist) (pq', dist')"
      by (simp add: pop s')
    from inv_expand[OF i[unfolded s] g e v _ d this] a show ?thesis by (simp add: s')
  qed
qed

lemma inv_Return:
  assumes i: "search_inv n E src dst k s" and g: "graph_ok n E adj" and nn: "nonneg E"
    and st: "search_step tie adj dst k s = Inr (Return r)"
  shows "answer E src dst k r"
proof -
  obtain pq dist where s: "s = (pq, dist)" by (cases s)
  note i' = i[unfolded s]
  from search_step_Return[OF st[unfolded s]] show ?thesis
  proof
    assume a: "pq = [] \<and> r = - 1"
    have "INT_MAX \<le> walk_cost w"
      if "set w \<subseteq> set E \<and> walk src w dst \<and> int (length w) \<le> k + 1" for w
    proof (rule ccontr)
      assume "\<not> INT_MAX \<le> walk_cost w"
      then have "walk_cost w < INT_MAX" by simp
      with frontier[OF i' g nn, of w] that a show False by simp
    qed
    with a show ?thesis by (simp add: answer_def)
  next
    assume a: "pq \<noteq> [] \<and> (\<exists>j. pq_top tie pq = (r, dst, j))"
    then obtain j where ne: "pq \<noteq> []" and t: "pq_top tie pq = (r, dst, j)" by blast
    from pq_top_in[OF ne, of tie] t have e: "(r, dst, j) \<in> set pq" by simp
    from i' have "inv_pq n E src k pq" by (simp add: search_inv_def)
    with e have rl: "r < INT_MAX" and jk: "j \<le> k + 1"
      and ex: "\<exists>es. set es \<subseteq> set E \<and> walk src es dst \<and> int (length es) = j \<and> walk_cost es = r"
      unfolding inv_pq_def by auto
    from ex obtain es where es: "set es \<subseteq> set E" "walk src es dst" "int (length es) = j" "walk_cost es = r"
      by blast
    from walk_cost_nonneg[OF nn es(1)] es(4) have r0: "0 \<le> r" by simp
    have m: "r \<le> walk_cost w"
      if w: "set w \<subseteq> set E \<and> walk src w dst \<and> int (length w) \<le> k + 1" for w
    proof (cases "walk_cost w < INT_MAX")
      case True
      with frontier[OF i' g nn, of w] w obtain x where x: "x \<in> set pq" "fst x \<le> walk_cost w"
        by blast
      from pq_top_min[OF ne x(1), of tie] t x(2) show ?thesis by simp
    next
      case False
      with rl show ?thesis by simp
    qed
    have "\<exists>w. set w \<subseteq> set E \<and> walk src w dst \<and> int (length w) \<le> k + 1 \<and> walk_cost w = r"
      using es jk by auto
    with r0 rl m show ?thesis unfolding answer_def by blast
  qed
qed

lemma search_answer:
  assumes g: "graph_ok n E adj" and nn: "nonneg E" and d: "0 \<le> dst" "dst < n"
  shows "search_inv n E src dst k s \<Longrightarrow> search tie adj dst k s = Inr r \<Longrightarrow> answer E src dst k r"
proof (induction s rule: wf_induct_rule[OF wf_search_turns[of tie adj dst k]])
  case (1 s)
  show ?case
  proof (cases "search_step tie adj dst k s")
    case (Inl e)
    from search_Inl[OF this] "1.prems"(2) show ?thesis by simp
  next
    case (Inr l)
    show ?thesis
    proof (cases l)
      case (Return r')
      with Inr have st: "search_step tie adj dst k s = Inr (Return r')" by simp
      from search_Return[OF st] "1.prems"(2) have "r' = r" by simp
      with inv_Return[OF "1.prems"(1) g nn st] show ?thesis by simp
    next
      case (Continue s')
      with Inr have st: "search_step tie adj dst k s = Inr (Continue s')" by simp
      then have "(s', s) \<in> search_turns tie adj dst k" by (simp add: search_turns_def)
      moreover have "search_inv n E src dst k s'" by (rule inv_step[OF "1.prems"(1) g d st])
      moreover have "search tie adj dst k s' = Inr r"
        using search_Continue[OF st] "1.prems"(2) by simp
      ultimately show ?thesis by (rule "1.IH")
    qed
  qed
qed

lemma build_adj_Inr:
  "build_adj flights adj0 = Inr adj \<Longrightarrow>
     length adj = length adj0 \<and>
     (\<forall>u<length adj0. adj ! u = adj0 ! u @
        map (\<lambda>f. \<lparr>to = f ! 1, cost = f ! 2\<rparr>) (filter (\<lambda>f. f ! 0 = int u) flights))"
proof (induction flights arbitrary: adj0)
  case Nil
  then show ?case by simp
next
  case (Cons f fs)
  let ?i = "nat (f ! 0)"
  let ?adj1 = "adj0[?i := adj0 ! ?i @ [\<lparr>to = f ! 1, cost = f ! 2\<rparr>]]"
  from Cons.prems have r: "0 \<le> f ! 0" "f ! 0 < int (length adj0)"
    and b: "build_adj fs ?adj1 = Inr adj"
    by (auto split: if_splits)
  from Cons.IH[OF b] have l: "length adj = length adj0"
    and n: "\<forall>u<length adj0. adj ! u = ?adj1 ! u @
        map (\<lambda>f. \<lparr>to = f ! 1, cost = f ! 2\<rparr>) (filter (\<lambda>f. f ! 0 = int u) fs)"
    by simp_all
  have "adj ! u = adj0 ! u @
        map (\<lambda>f. \<lparr>to = f ! 1, cost = f ! 2\<rparr>) (filter (\<lambda>f. f ! 0 = int u) (f # fs))"
    if u: "u < length adj0" for u
  proof (cases "f ! 0 = int u")
    case True
    then have "?i = u" by simp
    with n u show ?thesis using True by simp
  next
    case False
    with r have "?i \<noteq> u" by auto
    with n u show ?thesis using False by simp
  qed
  with l show ?case by simp
qed

lemma build_adj_succeeds:
  "list_all (\<lambda>f. 3 \<le> length f \<and> 0 \<le> f ! 0 \<and> f ! 0 < int (length adj0)) flights \<Longrightarrow>
     \<exists>adj. build_adj flights adj0 = Inr adj"
  by (induction flights arbitrary: adj0) auto

lemma valid_nodes_build:
  assumes "valid_nodes n flights src dst"
  shows "\<exists>adj. build_adj flights (replicate (nat n) []) = Inr adj"
proof (rule build_adj_succeeds)
  from assms show "list_all (\<lambda>f. 3 \<le> length f \<and> 0 \<le> f ! 0 \<and> f ! 0 < int (length (replicate (nat n) ([]::Edge list)))) flights"
    by (auto simp: valid_nodes_def list_all_iff)
qed

lemma graph_ok_build:
  assumes v: "valid_nodes n flights src dst"
    and b: "build_adj flights (replicate (nat n) []) = Inr adj"
  shows "graph_ok n (edges_of flights) adj"
  unfolding graph_ok_def
proof (intro conjI allI impI ballI)
  from build_adj_Inr[OF b] show "length adj = nat n" by simp
next
  fix x assume "x \<in> set (edges_of flights)"
  with v show "case x of (a, b, c) \<Rightarrow> 0 \<le> a \<and> a < n \<and> 0 \<le> b \<and> b < n"
    by (auto simp: valid_nodes_def edges_of_def list_all_iff)
next
  fix u assume u: "0 \<le> u \<and> u < n"
  then have "nat u < length (replicate (nat n) ([]::Edge list))" by simp
  with build_adj_Inr[OF b] have "adj ! nat u =
      map (\<lambda>f. \<lparr>to = f ! 1, cost = f ! 2\<rparr>) (filter (\<lambda>f. f ! 0 = int (nat u)) flights)"
    by simp
  with u show "set (adj ! nat u) = {\<lparr>to = b, cost = c\<rparr> |b c. (u, b, c) \<in> set (edges_of flights)}"
    by (auto simp: edges_of_def)
qed

lemma nonneg_edges: "nonneg_costs flights \<Longrightarrow> nonneg (edges_of flights)"
  by (auto simp: nonneg_costs_def nonneg_def edges_of_def list_all_iff)

lemma table_ok_replicate: "table_ok n k (replicate (nat n) (replicate (nat (k + 2)) x))"
  by (simp add: table_ok_def)

lemma dget_replicate: "cell n k v j \<Longrightarrow> dget (replicate (nat n) (replicate (nat (k + 2)) x)) v j = x"
  by (simp add: dget_def cell_def)

lemma dget_start:
  assumes "cell n k src 0" "cell n k v j"
  shows "dget (snd (start n src k)) v j = (if v = src \<and> j = 0 then 0 else INT_MAX)"
  using assms by (simp add: start_def dget_dist_set[OF table_ok_replicate] dget_replicate)

lemma inv_start:
  assumes s: "0 \<le> src" "src < n" and k: "0 < k + 2" and d: "0 \<le> dst" "dst < n"
  shows "search_inv n E src dst k (start n src k)"
proof -
  from s k have c0: "cell n k src 0" by (simp add: cell_def)
  note ds = dget_start[OF c0]
  have pq: "fst (start n src k) = [(0, src, 0)]" by (simp add: start_def pq_push_def)
  have "inv_tab n k src (snd (start n src k))"
    unfolding inv_tab_def
  proof (intro conjI allI impI)
    show "table_ok n k (snd (start n src k))"
      by (simp add: start_def table_ok_dist_set table_ok_replicate)
    show "dget (snd (start n src k)) v j \<le> INT_MAX" if "cell n k v j" for v j
      by (simp add: ds[OF that] INT_MAX_def)
    show "cell n k src 0" by (rule c0)
    show "dget (snd (start n src k)) src 0 \<le> 0" by (simp add: ds[OF c0])
  qed
  moreover have "inv_pq n E src k (fst (start n src k))"
  proof -
    have "set [] \<subseteq> set E \<and> walk src [] src \<and> int (length ([]::(int \<times> int \<times> int) list)) = 0 \<and> walk_cost [] = 0"
      by (simp add: walk_cost_def)
    then have "\<exists>es. set es \<subseteq> set E \<and> walk src es src \<and> int (length es) = 0 \<and> walk_cost es = 0"
      by blast
    with s k show ?thesis by (simp add: pq inv_pq_def INT_MAX_def)
  qed
  moreover have "inv_exp n E dst k (fst (start n src k)) (snd (start n src k))"
    unfolding inv_exp_def
  proof (intro allI impI)
    fix v j
    assume a: "0 \<le> v \<and> v < n \<and> v \<noteq> dst \<and> 0 \<le> j \<and> j \<le> k \<and> dget (snd (start n src k)) v j < INT_MAX"
    then have c: "cell n k v j" by (simp add: cell_def)
    from a ds[OF c] have "v = src \<and> j = 0" by (auto split: if_splits)
    with ds[OF c] have "(dget (snd (start n src k)) v j, v, j) \<in> set (fst (start n src k))"
      by (simp add: pq)
    then show "(dget (snd (start n src k)) v j, v, j) \<in> set (fst (start n src k)) \<or>
       (\<forall>(a, b, c)\<in>set E. a = v \<longrightarrow> dget (snd (start n src k)) b (j + 1) \<le> dget (snd (start n src k)) v j + c)"
      by blast
  qed
  moreover have "inv_dst dst k (fst (start n src k)) (snd (start n src k))"
    unfolding inv_dst_def
  proof (intro allI impI)
    fix j
    assume a: "0 \<le> j \<and> j \<le> k + 1 \<and> dget (snd (start n src k)) dst j < INT_MAX"
    with d have c: "cell n k dst j" by (simp add: cell_def)
    from a ds[OF c] have "dst = src \<and> j = 0" by (auto split: if_splits)
    with ds[OF c] show "(dget (snd (start n src k)) dst j, dst, j) \<in> set (fst (start n src k))"
      by (simp add: pq)
  qed
  ultimately show ?thesis by (simp add: search_inv_def)
qed

lemma findCheapestPrice_unfold:
  assumes "valid_nodes n flights src dst" and "in_int (k + 2)" and "0 < k + 2"
  obtains adj where "build_adj flights (replicate (nat n) []) = Inr adj"
    and "findCheapestPrice tie n flights src dst k = search tie adj dst k (start n src k)"
proof -
  from valid_nodes_build[OF assms(1)] obtain adj where
    b: "build_adj flights (replicate (nat n) []) = Inr adj" by blast
  from assms b have "findCheapestPrice tie n flights src dst k = search tie adj dst k (start n src k)"
    by (simp add: findCheapestPrice_def valid_nodes_def start_def Let_def)
  with b that show thesis by blast
qed

lemma findCheapestPrice_Inr:
  assumes "findCheapestPrice tie n flights src dst k = Inr r"
  shows "in_int (k + 2) \<and> 0 < k + 2"
  using assms by (auto simp: findCheapestPrice_def Let_def split: if_splits sum.splits)

lemma findCheapestPrice_answer:
  assumes v: "valid_nodes n flights src dst" and nn: "nonneg_costs flights"
    and r: "findCheapestPrice tie n flights src dst k = Inr r"
  shows "answer (edges_of flights) src dst k r"
proof -
  from findCheapestPrice_Inr[OF r] have k: "in_int (k + 2)" "0 < k + 2" by simp_all
  from v k obtain adj where b: "build_adj flights (replicate (nat n) []) = Inr adj"
    and f: "findCheapestPrice tie n flights src dst k = search tie adj dst k (start n src k)"
    by (rule findCheapestPrice_unfold)
  from v have s: "0 \<le> src" "src < n" and d: "0 \<le> dst" "dst < n"
    by (simp_all add: valid_nodes_def)
  show ?thesis
    by (rule search_answer[OF graph_ok_build[OF v b] nonneg_edges[OF nn] d
          inv_start[OF s k(2) d]]) (use f r in simp)
qed

section \<open>Runs from the start state\<close>

lemma pq_top_code [code]:
  "pq_top tie pq =
     (let ms = filter (\<lambda>e. fst e = Min (set (map fst pq))) pq
      in case ms of [e] \<Rightarrow> e | _ \<Rightarrow> ms ! (tie pq mod length ms))"
  by (simp add: pq_top_def Let_def split: list.splits)

lemma pq_top_single: "pq_top tie [e] = e"
  by (simp add: pq_top_def)

lemma search_step_seed_dst:
  "search_step tie adj dst k ([(c, dst, j)], dist) = Inr (Return c)"
  by (simp add: search_step_def pq_top_single)

lemma search_step_empty: "search_step tie adj dst k ([], dist) = Inr (Return (- 1))"
  by (simp add: search_step_def)

lemma search_step_seed_discard:
  "v \<noteq> dst \<Longrightarrow> k < j \<Longrightarrow>
     search_step tie adj dst k ([(c, v, j)], dist) = Inr (Continue ([], dist))"
  by (simp add: search_step_def pq_top_single pq_pop_def)

lemma fst_start: "fst (start n src k) = [(0, src, 0)]"
  by (simp add: start_def pq_push_def)

lemma search_start_same:
  "search tie adj src k (start n src k) = Inr 0"
proof -
  have "start n src k = ([(0, src, 0)], snd (start n src k))"
    using fst_start[of n src k] by (cases "start n src k") simp
  then have "search_step tie adj src k (start n src k) = Inr (Return 0)"
    using search_step_seed_dst[of tie adj src k 0 0 "snd (start n src k)"] by simp
  then show ?thesis by (rule search_Return)
qed

section \<open>Accesses in range, sums in range, entries that only decrease\<close>

lemma relax_error:
  assumes "table_ok n k dist" and "\<forall>edge\<in>set es. 0 \<le> to edge \<and> to edge < n"
    and "0 \<le> cs" "cs \<le> k" "in_int (k + 2)"
  shows "relax cc cs es (pq, dist) = Inl e \<Longrightarrow>
           e = SignedOverflow \<and> (\<exists>edge\<in>set es. \<not> in_int (cc + cost edge))"
  using assms(1,2)
proof (induction es arbitrary: pq dist)
  case Nil
  then show ?case by simp
next
  case (Cons x es)
  from Cons.prems(3) assms(3,4) have c: "cell n k (to x) (cs + 1)" by (simp add: cell_def)
  note g = dist_get_cell[OF Cons.prems(2) c]
  from assms(3,4,5) have s1: "in_int (cs + 1)" by (simp add: in_int_def INT_MIN_def)
  show ?case
  proof (cases "in_int (cc + cost x)")
    case False
    with Cons.prems(1) show ?thesis by (simp add: Let_def)
  next
    case True
    show ?thesis
    proof (cases "cc + cost x < dget dist (to x) (cs + 1)")
      case lt: True
      with Cons.prems(1) True s1 g
      have "relax cc cs es (pq_push (cc + cost x, to x, cs + 1) pq,
              dist_set dist (to x) (cs + 1) (cc + cost x)) = Inl e"
        by (simp add: Let_def)
      from Cons.IH[OF this table_ok_dist_set[OF Cons.prems(2)]] Cons.prems(3)
      show ?thesis by auto
    next
      case ge: False
      with Cons.prems(1) True s1 g have "relax cc cs es (pq, dist) = Inl e"
        by (simp add: Let_def)
      from Cons.IH[OF this Cons.prems(2)] Cons.prems(3) show ?thesis by auto
    qed
  qed
qed

lemma bound_step:
  fixes c x j C :: int
  assumes "\<bar>c\<bar> \<le> j * C" "\<bar>x\<bar> \<le> C" "0 \<le> j"
  shows "\<bar>c + x\<bar> \<le> (j + 1) * C"
proof -
  have "\<bar>c + x\<bar> \<le> \<bar>c\<bar> + \<bar>x\<bar>" by (rule abs_triangle_ineq)
  also have "\<dots> \<le> j * C + C" using assms by simp
  finally show ?thesis by (simp add: algebra_simps)
qed

lemma inv_bnd_step:
  assumes i: "inv_bnd n k C s" and g: "graph_bnd n C adj"
    and st: "search_step tie adj dst k s = Inr (Continue s')"
  shows "inv_bnd n k C s'"
proof -
  obtain pq dist where s: "s = (pq, dist)" by (cases s)
  from st[unfolded s] obtain c v j where ne: "pq \<noteq> []" and t: "pq_top tie pq = (c, v, j)"
    and cs: "(k < j \<and> s' = (pq_pop tie pq, dist)) \<or>
     (j \<le> k \<and> 0 \<le> v \<and> v < int (length adj) \<and>
      relax c j (adj ! nat v) (pq_pop tie pq, dist) = Inr s')"
    by (rule search_step_Continue)
  from i s have tab: "table_ok n k dist"
    and ent: "\<And>x. x \<in> set pq \<Longrightarrow> case x of (c, v, j) \<Rightarrow>
        0 \<le> v \<and> v < n \<and> 0 \<le> j \<and> j \<le> k + 1 \<and> \<bar>c\<bar> \<le> j * C"
    by (auto simp: inv_bnd_def)
  have sub: "set (pq_pop tie pq) \<subseteq> set pq"
    unfolding pq_pop_def by (rule set_remove1_subset)
  from pq_top_in[OF ne, of tie] t have e: "(c, v, j) \<in> set pq" by simp
  from ent[OF e] have top: "0 \<le> v" "v < n" "0 \<le> j" "\<bar>c\<bar> \<le> j * C" by auto
  from cs show ?thesis
  proof
    assume "k < j \<and> s' = (pq_pop tie pq, dist)"
    with tab ent sub show ?thesis by (auto simp: inv_bnd_def)
  next
    assume a: "j \<le> k \<and> 0 \<le> v \<and> v < int (length adj) \<and>
      relax c j (adj ! nat v) (pq_pop tie pq, dist) = Inr s'"
    from relax_relaxed[OF tab, of c j "adj ! nat v" "pq_pop tie pq" s'] a
    have r: "relaxed n k c j (adj ! nat v) (pq_pop tie pq, dist) s'" by simp
    from top have "nat v < nat n" by simp
    with g have ed: "\<And>edge. edge \<in> set (adj ! nat v) \<Longrightarrow>
        0 \<le> to edge \<and> to edge < n \<and> \<bar>cost edge\<bar> \<le> C"
      unfolding graph_bnd_def by blast
    have "case x of (c, v, j) \<Rightarrow> 0 \<le> v \<and> v < n \<and> 0 \<le> j \<and> j \<le> k + 1 \<and> \<bar>c\<bar> \<le> j * C"
      if x: "x \<in> set (fst s')" for x
    proof -
      from r x have "x \<in> set (pq_pop tie pq) \<or>
         (\<exists>edge\<in>set (adj ! nat v). x = (c + cost edge, to edge, j + 1) \<and>
            c + cost edge < dget dist (to edge) (j + 1))"
        by (simp add: relaxed_def)
      then show ?thesis
      proof
        assume "x \<in> set (pq_pop tie pq)"
        with sub ent show ?thesis by blast
      next
        assume "\<exists>edge\<in>set (adj ! nat v). x = (c + cost edge, to edge, j + 1) \<and>
            c + cost edge < dget dist (to edge) (j + 1)"
        then obtain edge where m: "edge \<in> set (adj ! nat v)" and xe: "x = (c + cost edge, to edge, j + 1)"
          by blast
        from ed[OF m] bound_step[OF top(4) _ top(3), of "cost edge"] a top xe
        show ?thesis by simp
      qed
    qed
    moreover from r have "table_ok n k (snd s')" by (simp add: relaxed_def)
    ultimately show ?thesis by (auto simp: inv_bnd_def)
  qed
qed

lemma search_step_error:
  assumes i: "inv_bnd n k C s" and g: "graph_bnd n C adj" and k: "in_int (k + 2)"
    and st: "search_step tie adj dst k s = Inl e"
  shows "e = SignedOverflow \<and> INT_MAX < (k + 1) * C"
proof -
  obtain pq dist where s: "s = (pq, dist)" by (cases s)
  obtain c v j where t: "pq_top tie pq = (c, v, j)" by (cases "pq_top tie pq")
  from st s t have ne: "pq \<noteq> []" and jk: "j \<le> k"
    by (auto simp: search_step_def Let_def split: if_splits)
  from i s have tab: "table_ok n k dist"
    and ent: "\<And>x. x \<in> set pq \<Longrightarrow> case x of (c, v, j) \<Rightarrow>
        0 \<le> v \<and> v < n \<and> 0 \<le> j \<and> j \<le> k + 1 \<and> \<bar>c\<bar> \<le> j * C"
    by (auto simp: inv_bnd_def)
  from pq_top_in[OF ne, of tie] t have "(c, v, j) \<in> set pq" by simp
  from ent[OF this] have top: "0 \<le> v" "v < n" "0 \<le> j" "\<bar>c\<bar> \<le> j * C" by auto
  from top have vn: "nat v < nat n" by simp
  from g top have len: "v < int (length adj)" by (simp add: graph_bnd_def)
  from g vn have ed: "\<And>edge. edge \<in> set (adj ! nat v) \<Longrightarrow>
        0 \<le> to edge \<and> to edge < n \<and> \<bar>cost edge\<bar> \<le> C"
    unfolding graph_bnd_def by blast
  from st s t ne jk top len
  have r: "relax c j (adj ! nat v) (pq_pop tie pq, dist) = Inl e"
    by (auto simp: search_step_def Let_def at_def split: if_splits sum.splits)
  have "\<forall>edge\<in>set (adj ! nat v). 0 \<le> to edge \<and> to edge < n" using ed by blast
  from relax_error[OF tab this top(3) jk k r]
  obtain edge where e: "e = SignedOverflow" and m: "edge \<in> set (adj ! nat v)"
    and ov: "\<not> in_int (c + cost edge)" by blast
  from ed[OF m] have ce: "\<bar>cost edge\<bar> \<le> C" by simp
  then have C0: "0 \<le> C" by simp
  from bound_step[OF top(4) ce top(3)] have b: "\<bar>c + cost edge\<bar> \<le> (j + 1) * C" .
  from jk C0 have "(j + 1) * C \<le> (k + 1) * C" by (intro mult_right_mono) simp_all
  with b have "\<bar>c + cost edge\<bar> \<le> (k + 1) * C" by simp
  with ov have "INT_MAX < (k + 1) * C"
    by (auto simp: in_int_def INT_MIN_def INT_MAX_def)
  with e show ?thesis by simp
qed

lemma search_error:
  assumes g: "graph_bnd n C adj" and k: "in_int (k + 2)"
  shows "inv_bnd n k C s \<Longrightarrow> search tie adj dst k s = Inl e \<Longrightarrow>
           e = SignedOverflow \<and> INT_MAX < (k + 1) * C"
proof (induction s rule: wf_induct_rule[OF wf_search_turns[of tie adj dst k]])
  case (1 s)
  show ?case
  proof (cases "search_step tie adj dst k s")
    case (Inl e')
    from search_Inl[OF this] "1.prems"(2) have "e' = e" by simp
    with search_step_error[OF "1.prems"(1) g k Inl] show ?thesis by simp
  next
    case (Inr l)
    show ?thesis
    proof (cases l)
      case (Return r)
      with Inr search_Return[of tie adj dst k s r] "1.prems"(2) show ?thesis by simp
    next
      case (Continue s')
      with Inr have st: "search_step tie adj dst k s = Inr (Continue s')" by simp
      then have "(s', s) \<in> search_turns tie adj dst k" by (simp add: search_turns_def)
      moreover have "inv_bnd n k C s'" by (rule inv_bnd_step[OF "1.prems"(1) g st])
      moreover have "search tie adj dst k s' = Inl e"
        using search_Continue[OF st] "1.prems"(2) by simp
      ultimately show ?thesis by (rule "1.IH")
    qed
  qed
qed

lemma inv_bnd_start:
  assumes "0 \<le> src" "src < n" "0 < k + 2"
  shows "inv_bnd n k C (start n src k)"
  using assms
  by (simp add: inv_bnd_def fst_start) (simp add: start_def table_ok_dist_set table_ok_replicate)

lemma graph_bnd_build:
  assumes v: "valid_nodes n flights src dst"
    and c: "list_all (\<lambda>flight. \<bar>flight ! 2\<bar> \<le> C) flights"
    and b: "build_adj flights (replicate (nat n) []) = Inr adj"
  shows "graph_bnd n C adj"
  unfolding graph_bnd_def
proof (intro conjI allI impI ballI)
  from build_adj_Inr[OF b] show "length adj = nat n" by simp
next
  fix u edge assume u: "u < nat n" and e: "edge \<in> set (adj ! u)"
  from build_adj_Inr[OF b] u have "adj ! u =
      map (\<lambda>f. \<lparr>to = f ! 1, cost = f ! 2\<rparr>) (filter (\<lambda>f. f ! 0 = int u) flights)"
    by simp
  with e obtain f where f: "f \<in> set flights" "edge = \<lparr>to = f ! 1, cost = f ! 2\<rparr>" by auto
  with v c show "0 \<le> to edge" "to edge < n" "\<bar>cost edge\<bar> \<le> C"
    by (auto simp: valid_nodes_def list_all_iff)
qed

lemma cost_bound_exists: "\<exists>C. list_all (\<lambda>flight. \<bar>flight ! 2\<bar> \<le> C) (flights :: int list list)"
proof (induction flights)
  case Nil
  then show ?case by simp
next
  case (Cons f fs)
  then obtain C where C: "list_all (\<lambda>flight. \<bar>flight ! 2\<bar> \<le> C) fs" by blast
  have "list_all (\<lambda>flight. \<bar>flight ! 2\<bar> \<le> max C \<bar>f ! 2\<bar>) (f # fs)"
    using C by (auto simp: list_all_iff)
  then show ?case by blast
qed

lemma findCheapestPrice_error:
  assumes v: "valid_nodes n flights src dst" and k: "0 \<le> k"
    and c: "list_all (\<lambda>flight. \<bar>flight ! 2\<bar> \<le> C) flights"
    and e: "findCheapestPrice tie n flights src dst k = Inl e"
  shows "e = SignedOverflow \<and> (INT_MAX < k + 2 \<or> INT_MAX < (k + 1) * C)"
proof (cases "in_int (k + 2)")
  case False
  from valid_nodes_build[OF v] obtain adj where
    "build_adj flights (replicate (nat n) []) = Inr adj" by blast
  with e v False k show ?thesis
    by (auto simp: findCheapestPrice_def Let_def valid_nodes_def in_int_def INT_MIN_def split: if_splits)
next
  case True
  from k have k2: "0 < k + 2" by simp
  from v True k2 obtain adj where b: "build_adj flights (replicate (nat n) []) = Inr adj"
    and f: "findCheapestPrice tie n flights src dst k = search tie adj dst k (start n src k)"
    by (rule findCheapestPrice_unfold)
  from v have s: "0 \<le> src" "src < n" by (simp_all add: valid_nodes_def)
  from search_error[OF graph_bnd_build[OF v c b] True inv_bnd_start[OF s k2], of tie dst e] f e
  show ?thesis by simp
qed

lemma search_turn_decreases:
  assumes "table_ok n k (snd s)" and "(s', s) \<in> search_turns tie adj dst k"
  shows "table_ok n k (snd s') \<and> (\<forall>v j. cell n k v j \<longrightarrow> dget (snd s') v j \<le> dget (snd s) v j)"
proof -
  obtain pq dist where s: "s = (pq, dist)" by (cases s)
  from assms(2) s have st: "search_step tie adj dst k (pq, dist) = Inr (Continue s')"
    by (simp add: search_turns_def)
  from st obtain c v j where
    cs: "(k < j \<and> s' = (pq_pop tie pq, dist)) \<or>
     (j \<le> k \<and> 0 \<le> v \<and> v < int (length adj) \<and>
      relax c j (adj ! nat v) (pq_pop tie pq, dist) = Inr s')"
    by (rule search_step_Continue)
  from assms(1) s have tab: "table_ok n k dist" by simp
  from cs show ?thesis
  proof
    assume "k < j \<and> s' = (pq_pop tie pq, dist)"
    with tab s show ?thesis by simp
  next
    assume "j \<le> k \<and> 0 \<le> v \<and> v < int (length adj) \<and>
      relax c j (adj ! nat v) (pq_pop tie pq, dist) = Inr s'"
    with relax_relaxed[OF tab, of c j "adj ! nat v" "pq_pop tie pq" s']
    have "relaxed n k c j (adj ! nat v) (pq_pop tie pq, dist) s'" by simp
    then show ?thesis by (simp add: relaxed_def s)
  qed
qed

lemma search_turns_decrease:
  assumes "(s', s) \<in> (search_turns tie adj dst k)\<^sup>*" and "table_ok n k (snd s)"
  shows "table_ok n k (snd s') \<and> (\<forall>v j. cell n k v j \<longrightarrow> dget (snd s') v j \<le> dget (snd s) v j)"
  using assms
proof (induction rule: converse_rtrancl_induct)
  case base
  then show ?case by simp
next
  case (step y z)
  from step.IH[OF step.prems] have tz: "table_ok n k (snd z)"
    and lz: "\<forall>v j. cell n k v j \<longrightarrow> dget (snd z) v j \<le> dget (snd s) v j" by simp_all
  from search_turn_decreases[OF tz step.hyps(1)] lz show ?case by fastforce
qed

lemma relax_one:
  assumes "relax cc cs [edge] (pq, dist) = Inr (pq', dist')"
  shows "dist' = dist \<or>
         (cc + cost edge < dget dist (to edge) (cs + 1) \<and>
          dist' = dist_set dist (to edge) (cs + 1) (cc + cost edge))"
proof (cases "dist_get dist (to edge) (cs + 1)")
  case (Inl e)
  with assms show ?thesis by (simp add: Let_def split: if_splits)
next
  case (Inr d)
  from dist_get_Inr[OF Inr] have "d = dget dist (to edge) (cs + 1)" by (simp add: dget_def)
  with assms Inr show ?thesis by (auto simp: Let_def split: if_splits)
qed

section \<open>Walks and simple paths\<close>

lemma walk_drop:
  "walk u es v \<Longrightarrow> i \<le> length es \<Longrightarrow> walk (cities u es ! i) (drop i es) v"
proof (induction i arbitrary: u es)
  case 0
  then show ?case by (simp add: cities_def)
next
  case (Suc i)
  then obtain a b c es' where es: "es = (a, b, c) # es'" by (cases es) auto
  with Suc.prems have "walk b es' v" "i \<le> length es'" by simp_all
  from Suc.IH[OF this] show ?case by (simp add: es cities_def)
qed

lemma cities_drop:
  "i \<le> length es \<Longrightarrow> cities (cities u es ! i) (drop i es) = drop i (cities u es)"
proof -
  assume "i \<le> length es"
  then have "i < length (cities u es)" by (simp add: cities_def)
  then have "drop i (cities u es) = cities u es ! i # drop (Suc i) (cities u es)"
    by (simp add: Cons_nth_drop_Suc)
  then show ?thesis by (simp add: cities_def drop_map)
qed

lemma walk_cost_drop:
  assumes "nonneg E" "set es \<subseteq> set E"
  shows "walk_cost (drop i es) \<le> walk_cost es"
proof -
  have "set (take i es) \<subseteq> set E" using assms(2) set_take_subset by fastforce
  from walk_cost_nonneg[OF assms(1) this]
  have "walk_cost (drop i es) \<le> walk_cost (take i es @ drop i es)"
    by (simp only: walk_cost_append)
  then show ?thesis by simp
qed

lemma walk_simple:
  assumes nn: "nonneg E"
  shows "set es \<subseteq> set E \<Longrightarrow> walk u es v \<Longrightarrow>
     \<exists>es'. set es' \<subseteq> set E \<and> walk u es' v \<and> length es' \<le> length es \<and>
           walk_cost es' \<le> walk_cost es \<and> simple u es'"
proof (induction es arbitrary: u)
  case Nil
  then have "set [] \<subseteq> set E \<and> walk u [] v \<and> length ([]::(int \<times> int \<times> int) list) \<le> 0 \<and>
      walk_cost [] \<le> walk_cost [] \<and> simple u []"
    by (simp add: simple_def cities_def)
  then show ?case by (metis list.size(3))
next
  case (Cons e es)
  obtain a b c where e: "e = (a, b, c)" by (cases e)
  from Cons.prems e have inE: "(a, b, c) \<in> set E" and sub: "set es \<subseteq> set E"
    and a: "a = u" and w: "walk b es v" by simp_all
  from nn inE have c0: "0 \<le> c" by (auto simp: nonneg_def)
  from Cons.IH[OF sub w] obtain es1 where es1: "set es1 \<subseteq> set E" "walk b es1 v"
    "length es1 \<le> length es" "walk_cost es1 \<le> walk_cost es" "simple b es1"
    by blast
  have ce: "walk_cost (e # es) = c + walk_cost es" by (simp add: e walk_cost_def)
  show ?case
  proof (cases "u \<in> set (cities b es1)")
    case False
    let ?p = "(a, b, c) # es1"
    have "set ?p \<subseteq> set E \<and> walk u ?p v \<and> length ?p \<le> length (e # es) \<and>
          walk_cost ?p \<le> walk_cost (e # es) \<and> simple u ?p"
      using es1 inE a False ce by (simp add: walk_cost_def simple_def cities_def)
    then show ?thesis by blast
  next
    case True
    then obtain i where i: "i < length (cities b es1)" "cities b es1 ! i = u"
      by (auto simp: in_set_conv_nth)
    then have il: "i \<le> length es1" by (simp add: cities_def)
    let ?p = "drop i es1"
    have 1: "set ?p \<subseteq> set E" using es1(1) set_drop_subset by fastforce
    have 2: "walk u ?p v" using walk_drop[OF es1(2) il] i(2) by simp
    have 3: "length ?p \<le> length (e # es)" using es1(3) by simp
    have 4: "walk_cost ?p \<le> walk_cost (e # es)"
      using walk_cost_drop[OF nn es1(1), of i] es1(4) c0 ce by simp
    have "cities u ?p = drop i (cities b es1)" using cities_drop[OF il, of b] i(2) by simp
    with es1(5) have 5: "simple u ?p" by (simp add: simple_def)
    from 1 2 3 4 5 show ?thesis by blast
  qed
qed

text \<open>
  What the result -1 does say, for inputs in the contract, when the run returns: no route within
  the limit costs less than \<open>INT_MAX\<close>.
\<close>

lemma unreachable_result:
  assumes "valid_nodes n flights src dst" and "nonneg_costs flights"
    and "findCheapestPrice tie n flights src dst k = Inr r"
  shows "r = - 1 \<longleftrightarrow>
         (\<forall>es. admissible flights src dst k es \<longrightarrow> INT_MAX \<le> walk_cost es)"
proof -
  from findCheapestPrice_answer[OF assms] have a: "answer (edges_of flights) src dst k r" .
  show ?thesis
  proof
    assume "r = - 1"
    with a show "\<forall>es. admissible flights src dst k es \<longrightarrow> INT_MAX \<le> walk_cost es"
      unfolding answer_def admissible_def by simp
  next
    assume n: "\<forall>es. admissible flights src dst k es \<longrightarrow> INT_MAX \<le> walk_cost es"
    show "r = - 1"
    proof (rule ccontr)
      assume "r \<noteq> - 1"
      with a obtain w where "admissible flights src dst k w" "walk_cost w = r" "r < INT_MAX"
        unfolding answer_def admissible_def by blast
      with n show False by fastforce
    qed
  qed
qed

text \<open>
  On inputs with node identifiers in range and \<open>k \<ge> 0\<close> a run returns a value
  exactly when no signed addition in it overflows.
\<close>

lemma returns_iff_no_overflow:
  assumes "valid_nodes n flights src dst" and "0 \<le> k"
  shows "(\<exists>r. findCheapestPrice tie n flights src dst k = Inr r) \<longleftrightarrow>
         findCheapestPrice tie n flights src dst k \<noteq> Inl SignedOverflow"
proof -
  obtain C where C: "list_all (\<lambda>flight. \<bar>flight ! 2\<bar> \<le> C) flights"
    using cost_bound_exists by blast
  show ?thesis
  proof (cases "findCheapestPrice tie n flights src dst k")
    case (Inl e)
    from findCheapestPrice_error[OF assms C Inl] Inl show ?thesis by simp
  next
    case (Inr r)
    then show ?thesis by simp
  qed
qed

text \<open>
  With the flights 0 to 1 for 2147483646 and 1 to 2 for 2, the one route from 0 to 2
  within one stop takes both flights.
\<close>

lemma only_route_beyond_int:
  assumes "admissible [[0, 1, 2147483646], [1, 2, 2]] 0 2 1 es"
  shows "es = [(0, 1, 2147483646), (1, 2, 2)]"
proof -
  from assms have s: "set es \<subseteq> {(0, 1, 2147483646), (1, 2, 2)}" and w: "walk 0 es 2"
    and l: "length es \<le> 2"
    by (auto simp: admissible_def edges_of_def)
  show ?thesis
  proof (cases es)
    case Nil
    with w show ?thesis by simp
  next
    case (Cons e1 es1)
    with s w have e1: "e1 = (0, 1, 2147483646)" and w1: "walk 1 es1 2" by auto
    show ?thesis
    proof (cases es1)
      case Nil
      with w1 show ?thesis by simp
    next
      case c2: (Cons e2 es2)
      with s w1 Cons have e2: "e2 = (1, 2, 2)" by auto
      from l Cons c2 have "es2 = []" by simp
      with Cons c2 e1 e2 show ?thesis by simp
    qed
  qed
qed

section \<open>The claims\<close>

text \<open>
  C1, as amended. For node identifiers in range, costs that are not negative and
  \<open>k \<ge> 0\<close>: whenever the run returns a value, that is, whenever no signed addition
  in it overflows (\<open>k + 2\<close> on line 50, the cost sums on line 72), a value other than
  -1 that \<open>findCheapestPrice\<close> returns is the least total cost of the routes from
  \<open>src\<close> to \<open>dst\<close> with at most \<open>k\<close> intermediate stops: it is the cost of one of
  them, a simple path, and no walk within the limit (simple or not) is cheaper.
\<close>

theorem cheapest_price_is_minimum:
  assumes "valid_nodes n flights src dst" and "nonneg_costs flights" and "0 \<le> k"
    and "findCheapestPrice tie n flights src dst k = Inr r" and "r \<noteq> - 1"
  shows "(\<exists>es. admissible flights src dst k es \<and> simple src es \<and> walk_cost es = r) \<and>
         (\<forall>es. admissible flights src dst k es \<longrightarrow> r \<le> walk_cost es)"
proof -
  let ?E = "edges_of flights"
  from findCheapestPrice_answer[OF assms(1,2,4)] assms(5)
  obtain w where w: "set w \<subseteq> set ?E" "walk src w dst" "int (length w) \<le> k + 1" "walk_cost w = r"
    and m: "\<And>es. set es \<subseteq> set ?E \<and> walk src es dst \<and> int (length es) \<le> k + 1 \<Longrightarrow> r \<le> walk_cost es"
    unfolding answer_def by blast
  from walk_simple[OF nonneg_edges[OF assms(2)] w(1,2)] obtain p where
    p: "set p \<subseteq> set ?E" "walk src p dst" "length p \<le> length w" "walk_cost p \<le> walk_cost w"
       "simple src p" by blast
  from p(3) w(3) have lp: "int (length p) \<le> k + 1" by simp
  with p(1,2) m[of p] have "r \<le> walk_cost p" by simp
  with p(4) w(4) have "walk_cost p = r" by simp
  with p(1,2,5) lp have "admissible flights src dst k p \<and> simple src p \<and> walk_cost p = r"
    by (simp add: admissible_def)
  moreover have "\<forall>es. admissible flights src dst k es \<longrightarrow> r \<le> walk_cost es"
    using m by (simp add: admissible_def)
  ultimately show ?thesis by blast
qed

lemma admissible_example:
  "admissible [[0, 1, 500], [0, 2, 600], [1, 2, 150], [1, 3, 200],
      [2, 3, 180], [2, 4, 250], [3, 4, 300], [4, 0, 700]] 0 4 1 [(0, 2, 600), (2, 4, 250)]"
  by (simp add: admissible_def edges_of_def)

theorem cheapest_price_is_minimum_witness:
  "valid_nodes 5 [[0, 1, 500], [0, 2, 600], [1, 2, 150], [1, 3, 200],
      [2, 3, 180], [2, 4, 250], [3, 4, 300], [4, 0, 700]] 0 4 \<and>
   nonneg_costs [[0, 1, 500], [0, 2, 600], [1, 2, 150], [1, 3, 200],
      [2, 3, 180], [2, 4, 250], [3, 4, 300], [4, 0, 700]] \<and>
   findCheapestPrice first_tie 5 [[0, 1, 500], [0, 2, 600], [1, 2, 150], [1, 3, 200],
      [2, 3, 180], [2, 4, 250], [3, 4, 300], [4, 0, 700]] 0 4 1 = Inr 850 \<and>
   850 \<le> walk_cost [(0, 2, 600), (2, 4, 250)]"
proof -
  let ?F = "[[0, 1, 500], [0, 2, 600], [1, 2, 150], [1, 3, 200],
      [2, 3, 180], [2, 4, 250], [3, 4, 300], [4, 0, 700]] :: int list list"
  have v: "valid_nodes 5 ?F 0 4" by (simp add: valid_nodes_def)
  have c: "nonneg_costs ?F" by (simp add: nonneg_costs_def)
  have r: "findCheapestPrice first_tie 5 ?F 0 4 1 = Inr 850" by code_simp
  have k: "(0::int) \<le> 1" and ne: "(850::int) \<noteq> - 1" by simp_all
  from cheapest_price_is_minimum[OF v c k r ne] admissible_example
  have "850 \<le> walk_cost [(0, 2, 600), (2, 4, 250)]" by blast
  with v c r show ?thesis by blast
qed

text \<open>
  C1 as stated fails where the run overflows: with the flights 0 to 1 for 2147483646 and
  1 to 2 for 2, from 0 to 2 with \<open>k = 1\<close>, the only route costs 2147483648, which is
  no value of \<open>int\<close>, and line 72 computes \<open>2147483646 + 2\<close>. The behaviour is
  undefined; where the sum wraps around, the entry \<open>(-2147483648, 2, 2)\<close> is pushed,
  popped and returned, a value that is neither -1 nor the cost of the route.
\<close>

theorem minimum_beyond_int_counterexample:
  "valid_nodes 3 [[0, 1, 2147483646], [1, 2, 2]] 0 2 \<and>
   nonneg_costs [[0, 1, 2147483646], [1, 2, 2]] \<and> (0::int) \<le> 1 \<and>
   admissible [[0, 1, 2147483646], [1, 2, 2]] 0 2 1 [(0, 1, 2147483646), (1, 2, 2)] \<and>
   walk_cost [(0, 1, 2147483646), (1, 2, 2)] = 2147483648 \<and>
   INT_MAX < walk_cost [(0, 1, 2147483646), (1, 2, 2)] \<and>
   findCheapestPrice first_tie 3 [[0, 1, 2147483646], [1, 2, 2]] 0 2 1 = Inl SignedOverflow \<and>
   findCheapestPrice first_tie 3 [[0, 1, 2147483646], [1, 2, 2]] 0 2 1 \<noteq> Inr (- 1) \<and>
   findCheapestPrice first_tie 3 [[0, 1, 2147483646], [1, 2, 2]] 0 2 1 \<noteq> Inr 2147483648"
  by code_simp

text \<open>
  C2, at an input where the code departs from it. The flight from 0 to 1 costs
  2147483647, a value of \<open>int\<close>, and is a route with no stop; its cost is not below the
  initial entry \<open>INT_MAX\<close> of \<open>dist\<close>, so line 75 drops it and the function returns
  -1 although a route exists.
\<close>

theorem price_at_int_max_reported_unreachable:
  "valid_nodes 2 [[0, 1, 2147483647]] 0 1 \<and> nonneg_costs [[0, 1, 2147483647]] \<and>
   admissible [[0, 1, 2147483647]] 0 1 0 [(0, 1, 2147483647)] \<and>
   walk_cost [(0, 1, 2147483647)] = 2147483647 \<and>
   findCheapestPrice tie 2 [[0, 1, 2147483647]] 0 1 0 = Inr (- 1)"
  by code_simp

text \<open>
  C3, as amended. When \<open>src = dst\<close> and the node identifiers are in range,
  \<open>findCheapestPrice\<close> returns 0 for every edge list and every \<open>k\<close> with
  \<open>0 \<le> k\<close> and \<open>k + 2 \<le> INT_MAX\<close>: the seed entry is the only entry of the
  queue, it is popped first and it is the destination. The bound on \<open>k\<close> is needed
  because line 50 computes \<open>k + 2\<close> in \<open>int\<close>.
\<close>

theorem same_city_costs_nothing:
  assumes "valid_nodes n flights src dst" and "src = dst" and "0 \<le> k" and "k + 2 \<le> INT_MAX"
  shows "findCheapestPrice tie n flights src dst k = Inr 0"
proof -
  from assms(3,4) have k: "in_int (k + 2)" "0 < k + 2"
    by (simp_all add: in_int_def INT_MIN_def)
  from assms(1) k obtain adj where
    "findCheapestPrice tie n flights src dst k = search tie adj dst k (start n src k)"
    by (rule findCheapestPrice_unfold)
  with assms(2) show ?thesis by (simp add: search_start_same)
qed

theorem same_city_costs_nothing_witness:
  "valid_nodes 2 [[0, 1, 7]] 1 1 \<and> (0::int) \<le> 5 \<and> 5 + 2 \<le> INT_MAX \<and>
   findCheapestPrice first_tie 2 [[0, 1, 7]] 1 1 5 = Inr 0"
proof -
  have v: "valid_nodes 2 [[0, 1, 7]] 1 1" by (simp add: valid_nodes_def)
  have k: "(0::int) \<le> 5" "5 + 2 \<le> INT_MAX" by (simp_all add: INT_MAX_def)
  from same_city_costs_nothing[OF v _ k, of first_tie] v k show ?thesis by simp
qed

text \<open>
  C3 as stated (every \<open>k \<ge> 0\<close>) fails at \<open>k = 2147483647\<close>: with one city, no
  flights and \<open>src = dst = 0\<close> the sum \<open>k + 2\<close> of line 50 overflows, and no 0 is
  returned.
\<close>

theorem same_city_largest_k_counterexample:
  "valid_nodes 1 [] 0 0 \<and> nonneg_costs [] \<and> (0::int) \<le> 2147483647 \<and>
   findCheapestPrice first_tie 1 [] 0 0 2147483647 = Inl SignedOverflow \<and>
   findCheapestPrice first_tie 1 [] 0 0 2147483647 \<noteq> Inr 0"
  by code_simp

text \<open>
  C4, as amended. For a fixed graph, \<open>src\<close> and \<open>dst\<close> (identifiers in range, costs
  not negative) and \<open>0 \<le> k1 \<le> k2\<close>: whenever both runs return a result, the result
  with \<open>k2\<close> is no costlier than the result with \<open>k1\<close>, -1 counting as costlier than
  every cost. (The two runs may break ties in the queue differently.)
\<close>

theorem more_stops_never_cost_more:
  assumes v: "valid_nodes n flights src dst" and c: "nonneg_costs flights"
    and k: "0 \<le> k1" "k1 \<le> k2"
    and r1: "findCheapestPrice tie1 n flights src dst k1 = Inr r1"
    and r2: "findCheapestPrice tie2 n flights src dst k2 = Inr r2"
  shows "no_costlier r2 r1"
proof (cases "r1 = - 1")
  case True
  then show ?thesis by (simp add: no_costlier_def)
next
  case False
  let ?E = "edges_of flights"
  from findCheapestPrice_answer[OF v c r1] False
  obtain w where w: "set w \<subseteq> set ?E" "walk src w dst" "int (length w) \<le> k1 + 1" "walk_cost w = r1"
    and b: "0 \<le> r1" "r1 < INT_MAX"
    unfolding answer_def by blast
  from w k have w2: "set w \<subseteq> set ?E \<and> walk src w dst \<and> int (length w) \<le> k2 + 1" by simp
  from findCheapestPrice_answer[OF v c r2] have "answer ?E src dst k2 r2" .
  then have "0 \<le> r2 \<and> r2 \<le> r1"
    unfolding answer_def
  proof
    assume "r2 = - 1 \<and> (\<forall>w. set w \<subseteq> set ?E \<and> walk src w dst \<and> int (length w) \<le> k2 + 1 \<longrightarrow> INT_MAX \<le> walk_cost w)"
    with w2 have "INT_MAX \<le> walk_cost w" by blast
    with w(4) b show ?thesis by simp
  next
    assume a: "0 \<le> r2 \<and> r2 < INT_MAX \<and>
       (\<exists>w. set w \<subseteq> set ?E \<and> walk src w dst \<and> int (length w) \<le> k2 + 1 \<and> walk_cost w = r2) \<and>
       (\<forall>w. set w \<subseteq> set ?E \<and> walk src w dst \<and> int (length w) \<le> k2 + 1 \<longrightarrow> r2 \<le> walk_cost w)"
    with w2 have "r2 \<le> walk_cost w" by blast
    with a w(4) show ?thesis by simp
  qed
  then show ?thesis by (simp add: no_costlier_def)
qed

theorem more_stops_never_cost_more_witness:
  "valid_nodes 3 [[0, 1, 100], [1, 2, 100], [0, 2, 500]] 0 2 \<and>
   nonneg_costs [[0, 1, 100], [1, 2, 100], [0, 2, 500]] \<and>
   findCheapestPrice first_tie 3 [[0, 1, 100], [1, 2, 100], [0, 2, 500]] 0 2 0 = Inr 500 \<and>
   findCheapestPrice first_tie 3 [[0, 1, 100], [1, 2, 100], [0, 2, 500]] 0 2 1 = Inr 200 \<and>
   no_costlier 200 500"
proof -
  let ?F = "[[0, 1, 100], [1, 2, 100], [0, 2, 500]] :: int list list"
  have v: "valid_nodes 3 ?F 0 2" by (simp add: valid_nodes_def)
  have c: "nonneg_costs ?F" by (simp add: nonneg_costs_def)
  have r1: "findCheapestPrice first_tie 3 ?F 0 2 0 = Inr 500" by code_simp
  have r2: "findCheapestPrice first_tie 3 ?F 0 2 1 = Inr 200" by code_simp
  from more_stops_never_cost_more[OF v c _ _ r1 r2] have "no_costlier 200 500" by simp
  with v c r1 r2 show ?thesis by blast
qed

text \<open>
  C4 as stated fails where the run with more stops overflows: with \<open>k = 0\<close> the entry
  for city 1 is discarded and 5 is returned; with \<open>k = 1\<close> it is expanded, and the sum
  \<open>1 + 2147483647\<close> of line 72 leaves the range of \<open>int\<close>.
\<close>

theorem more_stops_overflow_counterexample:
  "valid_nodes 3 [[0, 1, 1], [0, 2, 5], [1, 1, 2147483647]] 0 2 \<and>
   nonneg_costs [[0, 1, 1], [0, 2, 5], [1, 1, 2147483647]] \<and>
   findCheapestPrice first_tie 3 [[0, 1, 1], [0, 2, 5], [1, 1, 2147483647]] 0 2 0 = Inr 5 \<and>
   findCheapestPrice first_tie 3 [[0, 1, 1], [0, 2, 5], [1, 1, 2147483647]] 0 2 1 = Inl SignedOverflow"
  by code_simp

text \<open>
  C5. On the graph of \<open>main\<close> (New York 0, London 1, Paris 2, Berlin 3, Rome 4), from
  0 to 4, \<open>findCheapestPrice\<close> returns 850 for \<open>k = 1\<close>, 850 for \<open>k = 2\<close> and
  -1 for \<open>k = 0\<close>, whatever the queue does with entries of equal cost.
\<close>

theorem example_graph_prices:
  "findCheapestPrice tie 5
     [[0, 1, 500], [0, 2, 600], [1, 2, 150], [1, 3, 200],
      [2, 3, 180], [2, 4, 250], [3, 4, 300], [4, 0, 700]] 0 4 1 = Inr 850 \<and>
   findCheapestPrice tie 5
     [[0, 1, 500], [0, 2, 600], [1, 2, 150], [1, 3, 200],
      [2, 3, 180], [2, 4, 250], [3, 4, 300], [4, 0, 700]] 0 4 2 = Inr 850 \<and>
   findCheapestPrice tie 5
     [[0, 1, 500], [0, 2, 600], [1, 2, 150], [1, 3, 200],
      [2, 3, 180], [2, 4, 250], [3, 4, 300], [4, 0, 700]] 0 4 0 = Inr (- 1)"
  by code_simp

theorem example_graph_prices_witness:
  "findCheapestPrice first_tie 5
     [[0, 1, 500], [0, 2, 600], [1, 2, 150], [1, 3, 200],
      [2, 3, 180], [2, 4, 250], [3, 4, 300], [4, 0, 700]] 0 4 1 = Inr 850 \<and>
   findCheapestPrice first_tie 5
     [[0, 1, 500], [0, 2, 600], [1, 2, 150], [1, 3, 200],
      [2, 3, 180], [2, 4, 250], [3, 4, 300], [4, 0, 700]] 0 4 2 = Inr 850 \<and>
   findCheapestPrice first_tie 5
     [[0, 1, 500], [0, 2, 600], [1, 2, 150], [1, 3, 200],
      [2, 3, 180], [2, 4, 250], [3, 4, 300], [4, 0, 700]] 0 4 0 = Inr (- 1)"
  by (rule example_graph_prices[of first_tie])

text \<open>
  C6, as amended. For node identifiers in range and \<open>k \<ge> 0\<close>, whatever the costs: no
  access to \<open>adj\<close>, to \<open>dist\<close> or to a flight is out of range and no vector gets a
  negative size, so a run ends either with a result or at a signed overflow (of
  \<open>k + 2\<close> or of a cost sum); it ends with a result whenever \<open>k + 2 \<le> INT_MAX\<close> and
  \<open>(k + 1) * C \<le> INT_MAX\<close> for a bound \<open>C\<close> on the absolute values of the costs.
\<close>

theorem container_accesses_in_bounds:
  assumes "valid_nodes n flights src dst" and "0 \<le> k"
  shows "findCheapestPrice tie n flights src dst k \<noteq> Inl OutOfBounds \<and>
         findCheapestPrice tie n flights src dst k \<noteq> Inl LengthError \<and>
         (k + 2 \<le> INT_MAX \<and> list_all (\<lambda>flight. \<bar>flight ! 2\<bar> \<le> C) flights \<and>
          (k + 1) * C \<le> INT_MAX \<longrightarrow>
            (\<exists>r. findCheapestPrice tie n flights src dst k = Inr r))"
proof (intro conjI impI)
  obtain C' where C': "list_all (\<lambda>flight. \<bar>flight ! 2\<bar> \<le> C') flights"
    using cost_bound_exists by blast
  show "findCheapestPrice tie n flights src dst k \<noteq> Inl OutOfBounds"
    using findCheapestPrice_error[OF assms C', of tie OutOfBounds] by auto
  show "findCheapestPrice tie n flights src dst k \<noteq> Inl LengthError"
    using findCheapestPrice_error[OF assms C', of tie LengthError] by auto
next
  assume a: "k + 2 \<le> INT_MAX \<and> list_all (\<lambda>flight. \<bar>flight ! 2\<bar> \<le> C) flights \<and>
      (k + 1) * C \<le> INT_MAX"
  show "\<exists>r. findCheapestPrice tie n flights src dst k = Inr r"
  proof (cases "findCheapestPrice tie n flights src dst k")
    case (Inl e)
    from findCheapestPrice_error[OF assms _ Inl, of C] a show ?thesis by simp
  next
    case (Inr r)
    then show ?thesis by blast
  qed
qed

theorem container_accesses_in_bounds_witness:
  "valid_nodes 5 [[0, 1, 500], [0, 2, 600], [1, 2, 150], [1, 3, 200],
      [2, 3, 180], [2, 4, 250], [3, 4, 300], [4, 0, 700]] 0 4 \<and> (0::int) \<le> 1 \<and>
   1 + 2 \<le> INT_MAX \<and>
   list_all (\<lambda>flight. \<bar>flight ! 2\<bar> \<le> 700) [[0, 1, 500], [0, 2, 600], [1, 2, 150], [1, 3, 200],
      [2, 3, 180], [2, 4, 250], [3, 4, 300], [4, 0, 700 :: int]] \<and>
   (1 + 1) * 700 \<le> INT_MAX \<and>
   findCheapestPrice first_tie 5 [[0, 1, 500], [0, 2, 600], [1, 2, 150], [1, 3, 200],
      [2, 3, 180], [2, 4, 250], [3, 4, 300], [4, 0, 700]] 0 4 1 \<noteq> Inl OutOfBounds \<and>
   (\<exists>r. findCheapestPrice first_tie 5 [[0, 1, 500], [0, 2, 600], [1, 2, 150], [1, 3, 200],
      [2, 3, 180], [2, 4, 250], [3, 4, 300], [4, 0, 700]] 0 4 1 = Inr r)"
proof -
  let ?F = "[[0, 1, 500], [0, 2, 600], [1, 2, 150], [1, 3, 200],
      [2, 3, 180], [2, 4, 250], [3, 4, 300], [4, 0, 700]] :: int list list"
  have v: "valid_nodes 5 ?F 0 4" by (simp add: valid_nodes_def)
  have k: "(0::int) \<le> 1" by simp
  have b: "1 + 2 \<le> INT_MAX" "list_all (\<lambda>flight. \<bar>flight ! 2\<bar> \<le> 700) ?F"
    "(1 + 1) * 700 \<le> INT_MAX"
    by (simp_all add: INT_MAX_def)
  from container_accesses_in_bounds[OF v k, of first_tie 700] b
  have "findCheapestPrice first_tie 5 ?F 0 4 1 \<noteq> Inl OutOfBounds"
    and "\<exists>r. findCheapestPrice first_tie 5 ?F 0 4 1 = Inr r"
    by blast+
  with v k b show ?thesis by blast
qed

text \<open>
  C6 as stated (the search runs to completion for every \<open>k \<ge> 0\<close>) fails at
  \<open>k = 2147483646\<close>: the width \<open>k + 2\<close> of the table overflows on line 50.
\<close>

theorem table_width_overflow_counterexample:
  "valid_nodes 2 [[0, 1, 3]] 0 1 \<and> (0::int) \<le> 2147483646 \<and>
   findCheapestPrice first_tie 2 [[0, 1, 3]] 0 1 2147483646 = Inl SignedOverflow"
  by code_simp

text \<open>
  C7. The \<open>while\<close> loop terminates: the relation between the state after a turn of
  the loop and the state before it is well-founded, from every state, so no run takes
  infinitely many turns. (A turn that pushes lowers an entry of \<open>dist\<close>; a turn that
  does not push shortens the queue.)
\<close>

theorem search_loop_terminates: "wf (search_turns tie adj dst k)"
  by (rule wf_subset[OF _ search_turns_sub]) (intro wf_inv_image wf_lex_prod wf_less_than)

text \<open>
  C8. The table keeps its shape, one entry for each pair of a city and a number of stops,
  through the turns of the loop, and from a state to any state reached from it every
  entry is less than or equal to what it was; a single relaxation leaves the table as it
  is or writes, at \<open>(next_city, current_stops + 1)\<close>, a value strictly below the entry
  it replaces.
\<close>

theorem dist_entries_only_decrease:
  assumes "table_ok n k dist"
  shows "((s', (pq, dist)) \<in> (search_turns tie adj dst k)\<^sup>* \<longrightarrow>
            table_ok n k (snd s') \<and>
            (\<forall>v j. cell n k v j \<longrightarrow> dget (snd s') v j \<le> dget dist v j)) \<and>
         (relax cc cs [edge] (pq, dist) = Inr (pq', dist') \<longrightarrow>
            dist' = dist \<or>
            (cc + cost edge < dget dist (to edge) (cs + 1) \<and>
             dist' = dist_set dist (to edge) (cs + 1) (cc + cost edge)))"
  using search_turns_decrease[of s' "(pq, dist)" tie adj dst k n] assms
    relax_one[of cc cs edge pq dist pq' dist']
  by simp

theorem dist_entries_only_decrease_witness:
  "table_ok 2 0 [[0, 2147483647], [2147483647, 2147483647]] \<and>
   (([(7, 1, 1)], [[0, 2147483647], [2147483647, 7]]),
    ([(0, 0, 0)], [[0, 2147483647], [2147483647, 2147483647]]))
      \<in> (search_turns first_tie [[\<lparr>to = 1, cost = 7\<rparr>], []] 1 0)\<^sup>* \<and>
   cell 2 0 1 1 \<and>
   dget [[0, 2147483647], [2147483647, 7]] 1 1
     \<le> dget [[0, 2147483647], [2147483647, 2147483647]] 1 1 \<and>
   relax 0 0 [\<lparr>to = 1, cost = 7\<rparr>] ([], [[0, 2147483647], [2147483647, 2147483647]])
     = Inr ([(7, 1, 1)], [[0, 2147483647], [2147483647, 7]]) \<and>
   0 + cost \<lparr>to = 1, cost = 7\<rparr>
     < dget [[0, 2147483647], [2147483647, 2147483647]] (to \<lparr>to = 1, cost = 7\<rparr>) (0 + 1)"
proof -
  let ?D = "[[0, 2147483647], [2147483647, 2147483647]] :: int list list"
  let ?D' = "[[0, 2147483647], [2147483647, 7]] :: int list list"
  let ?adj = "[[\<lparr>to = 1, cost = 7\<rparr>], []]"
  have tab: "table_ok 2 0 ?D" by (simp add: table_ok_def less_Suc_eq numeral_2_eq_2)
  have "search_step first_tie ?adj 1 0 ([(0, 0, 0)], ?D) = Inr (Continue ([(7, 1, 1)], ?D'))"
    by code_simp
  then have "(([(7, 1, 1)], ?D'), ([(0, 0, 0)], ?D)) \<in> search_turns first_tie ?adj 1 0"
    by (simp add: search_turns_def)
  then have t: "(([(7, 1, 1)], ?D'), ([(0, 0, 0)], ?D)) \<in> (search_turns first_tie ?adj 1 0)\<^sup>*"
    by (rule r_into_rtrancl)
  have c: "cell 2 0 1 1" by (simp add: cell_def)
  have r: "relax 0 0 [\<lparr>to = 1, cost = 7\<rparr>] ([], ?D) = Inr ([(7, 1, 1)], ?D')" by code_simp
  have ne: "?D' \<noteq> ?D" by simp
  from dist_entries_only_decrease[OF tab, of "([(7, 1, 1)], ?D')" "[(0, 0, 0)]" first_tie ?adj 1 0]
    t c
  have le: "dget ?D' 1 1 \<le> dget ?D 1 1" by simp
  from dist_entries_only_decrease[OF tab, of _ "[]" _ _ _ 0 0 "\<lparr>to = 1, cost = 7\<rparr>" "[(7, 1, 1)]" ?D'] r ne
  have lt: "0 + cost \<lparr>to = 1, cost = 7\<rparr> < dget ?D (to \<lparr>to = 1, cost = 7\<rparr>) (0 + 1)"
    by blast
  from tab t c le r lt show ?thesis by blast
qed

text \<open>
  C9, as amended. For node identifiers in range, costs between 0 and \<open>C\<close>,
  \<open>0 \<le> k\<close>, \<open>k + 2 \<le> INT_MAX\<close> and \<open>(k + 1) * C \<le> INT_MAX\<close>, no sum
  \<open>current_cost + flight_cost\<close> leaves the range of \<open>int\<close>: the run ends with a result,
  every sum computed exactly. The source has no guard of its own; the bound on the costs
  is what excludes the overflow.
\<close>

theorem cost_sums_do_not_overflow:
  assumes "valid_nodes n flights src dst" and "nonneg_costs flights" and "0 \<le> k"
    and "k + 2 \<le> INT_MAX" and "list_all (\<lambda>flight. flight ! 2 \<le> C) flights"
    and "(k + 1) * C \<le> INT_MAX"
  shows "findCheapestPrice tie n flights src dst k \<noteq> Inl SignedOverflow \<and>
         (\<exists>r. findCheapestPrice tie n flights src dst k = Inr r)"
proof -
  from assms(2,5) have c: "list_all (\<lambda>flight. \<bar>flight ! 2\<bar> \<le> C) flights"
    by (auto simp: nonneg_costs_def list_all_iff)
  have "\<exists>r. findCheapestPrice tie n flights src dst k = Inr r"
  proof (cases "findCheapestPrice tie n flights src dst k")
    case (Inl e)
    from findCheapestPrice_error[OF assms(1,3) c Inl] assms(4,6) show ?thesis by simp
  next
    case (Inr r)
    then show ?thesis by blast
  qed
  then show ?thesis by auto
qed

theorem cost_sums_do_not_overflow_witness:
  "valid_nodes 3 [[0, 1, 1000000000], [1, 2, 1000000000]] 0 2 \<and>
   nonneg_costs [[0, 1, 1000000000], [1, 2, 1000000000]] \<and> (0::int) \<le> 1 \<and>
   1 + 2 \<le> INT_MAX \<and>
   list_all (\<lambda>flight. flight ! 2 \<le> 1000000000) [[0, 1, 1000000000], [1, 2, 1000000000 :: int]] \<and>
   (1 + 1) * 1000000000 \<le> INT_MAX \<and>
   findCheapestPrice first_tie 3 [[0, 1, 1000000000], [1, 2, 1000000000]] 0 2 1 \<noteq> Inl SignedOverflow"
proof -
  let ?F = "[[0, 1, 1000000000], [1, 2, 1000000000]] :: int list list"
  have v: "valid_nodes 3 ?F 0 2" by (simp add: valid_nodes_def)
  have c: "nonneg_costs ?F" by (simp add: nonneg_costs_def)
  have k: "(0::int) \<le> 1" "1 + 2 \<le> INT_MAX" by (simp_all add: INT_MAX_def)
  have b: "list_all (\<lambda>flight. flight ! 2 \<le> 1000000000) ?F" "(1 + 1) * 1000000000 \<le> INT_MAX"
    by (simp_all add: INT_MAX_def)
  from cost_sums_do_not_overflow[OF v c k b, of first_tie]
  have "findCheapestPrice first_tie 3 ?F 0 2 1 \<noteq> Inl SignedOverflow" by simp
  with v c k b show ?thesis by blast
qed

text \<open>
  C9 as stated fails without such a bound: on the flights 0 to 1 for 2147483646 and 1 to
  2 for 2, from 0 to 2 with \<open>k = 1\<close>, line 72 computes \<open>2147483646 + 2\<close>.
\<close>

theorem cost_sum_overflow_counterexample:
  "valid_nodes 3 [[0, 1, 2147483646], [1, 2, 2]] 0 2 \<and>
   nonneg_costs [[0, 1, 2147483646], [1, 2, 2]] \<and> (0::int) \<le> 1 \<and>
   findCheapestPrice first_tie 3 [[0, 1, 2147483646], [1, 2, 2]] 0 2 1 = Inl SignedOverflow"
  by code_simp

text \<open>
  C10. For \<open>k = -1\<close> and node identifiers in range, \<open>findCheapestPrice\<close> returns 0
  when \<open>src = dst\<close> and -1 otherwise: the seed is popped, answers if it is the
  destination, and is discarded by the guard \<open>current_stops > k\<close> if not, which
  leaves the queue empty.
\<close>

theorem no_stops_allowed:
  assumes "valid_nodes n flights src dst"
  shows "findCheapestPrice tie n flights src dst (- 1) = Inr (if src = dst then 0 else - 1)"
proof -
  have k: "in_int (- 1 + 2)" "(0::int) < - 1 + 2"
    by (simp_all add: in_int_def INT_MIN_def INT_MAX_def)
  from assms k obtain adj where
    f: "findCheapestPrice tie n flights src dst (- 1) = search tie adj dst (- 1) (start n src (- 1))"
    by (rule findCheapestPrice_unfold)
  show ?thesis
  proof (cases "src = dst")
    case True
    with f show ?thesis by (simp add: search_start_same)
  next
    case False
    obtain dist where s: "start n src (- 1) = ([(0, src, 0)], dist)"
      using fst_start[of n src "- 1"] by (cases "start n src (- 1)") simp
    have "search_step tie adj dst (- 1) ([(0, src, 0)], dist) = Inr (Continue ([], dist))"
      using False by (intro search_step_seed_discard) simp_all
    from search_Continue[OF this]
    have "search tie adj dst (- 1) ([(0, src, 0)], dist) = Inr (- 1)"
      by (simp add: search_Return[OF search_step_empty])
    with f s False show ?thesis by simp
  qed
qed

theorem no_stops_allowed_witness:
  "valid_nodes 3 [[0, 1, 7], [1, 2, 4]] 0 2 \<and>
   findCheapestPrice first_tie 3 [[0, 1, 7], [1, 2, 4]] 0 2 (- 1) = Inr (- 1)"
proof -
  have v: "valid_nodes 3 [[0, 1, 7], [1, 2, 4]] 0 2" by (simp add: valid_nodes_def)
  from no_stops_allowed[OF v, of first_tie] v show ?thesis by simp
qed

end
